theory Spec2Isabelle
  imports Main "HOL-Library.Sublist"
begin

section \<open>Messages\<close>

text \<open>
  The function \<open>truncate_messages\<close> of \<open>utils.py\<close> works on LangChain messages. It
  reads a message's class, its \<open>content\<close>, the \<open>tool_calls\<close> of an \<open>AIMessage\<close> and the
  \<open>tool_call_id\<close> of a \<open>ToolMessage\<close>, and nothing else.

  A tool call is read in two ways by the source: \<open>hasattr(tool_call, 'id')\<close> followed
  by \<open>tool_call.id\<close> (an object with an attribute), and
  \<open>isinstance(tool_call, dict)\<close> followed by \<open>tool_call.get('id')\<close> (a mapping). The two
  shapes are the two constructors below; the id is absent (\<open>None\<close>, or no such key) or a
  string. LangChain's own \<open>ToolCall\<close> is a \<open>TypedDict\<close>, that is the mapping shape, for
  which \<open>hasattr(tool_call, 'id')\<close> is false.
\<close>

datatype tool_call = ObjCall "string option" | DictCall "string option"

text \<open>
  \<open>content\<close> is a \<open>str\<close> or a \<open>list\<close>. Of a list the source takes \<open>str(msg.content)\<close>
  only, so a list-valued content is carried as that rendering.
\<close>

datatype content = TextContent string | ListContent string

datatype message =
    SystemMessage content
  | HumanMessage content
  | AIMessage content "tool_call list"
  | ToolMessage content string
  | OtherMessage content

fun msg_content :: "message \<Rightarrow> content" where
  "msg_content (SystemMessage c) = c"
| "msg_content (HumanMessage c) = c"
| "msg_content (AIMessage c tcs) = c"
| "msg_content (ToolMessage c tid) = c"
| "msg_content (OtherMessage c) = c"

fun is_system :: "message \<Rightarrow> bool" where
  "is_system (SystemMessage c) = True"
| "is_system m = False"

text \<open>\<open>isinstance(msg, AIMessage) and hasattr(msg, 'tool_calls') and msg.tool_calls\<close>\<close>

fun ai_with_tool_calls :: "message \<Rightarrow> bool" where
  "ai_with_tool_calls (AIMessage c tcs) = (tcs \<noteq> [])"
| "ai_with_tool_calls m = False"

section \<open>Size estimate\<close>

definition chars_per_token :: nat where
  "chars_per_token = 4"

fun content_text :: "content \<Rightarrow> string" where
  "content_text (TextContent s) = s"
| "content_text (ListContent s) = s"

definition get_message_tokens :: "message \<Rightarrow> nat" where
  "get_message_tokens msg =
     (let content = content_text (msg_content msg)
      in if content \<noteq> [] then length content div chars_per_token else 0)"

definition seq_tokens :: "message list \<Rightarrow> nat" where
  "seq_tokens seq = sum_list (map get_message_tokens seq)"

section \<open>Tool-call ids\<close>

text \<open>
  Lines 78-80, the grouping stage: \<open>if hasattr(tool_call, 'id') and tool_call.id\<close>. Only
  an object with a non-empty \<open>id\<close> attribute contributes.
\<close>

fun attr_id :: "tool_call \<Rightarrow> string option" where
  "attr_id (ObjCall (Some i)) = (if i \<noteq> [] then Some i else None)"
| "attr_id tc = None"

text \<open>
  Lines 181-190 and 326-333, the two validation passes: the attribute if there is one,
  else the key of a mapping; kept when truthy.
\<close>

fun any_id :: "tool_call \<Rightarrow> string option" where
  "any_id (ObjCall (Some i)) = (if i \<noteq> [] then Some i else None)"
| "any_id (DictCall (Some i)) = (if i \<noteq> [] then Some i else None)"
| "any_id tc = None"

primrec pending_ids :: "tool_call list \<Rightarrow> string set" where
  "pending_ids [] = {}"
| "pending_ids (tc # tcs) =
     (case attr_id tc of Some i \<Rightarrow> insert i (pending_ids tcs) | None \<Rightarrow> pending_ids tcs)"

primrec required_ids :: "tool_call list \<Rightarrow> string set" where
  "required_ids [] = {}"
| "required_ids (tc # tcs) =
     (case any_id tc of Some i \<Rightarrow> insert i (required_ids tcs) | None \<Rightarrow> required_ids tcs)"

text \<open>
  The dictionaries \<open>all_tool_messages_by_id\<close> and \<open>tool_messages_by_id\<close> are only ever
  asked for their keys: the non-empty \<open>tool_call_id\<close>s of the tool messages of a list.
\<close>

fun tool_message_ids :: "message list \<Rightarrow> string set" where
  "tool_message_ids [] = {}"
| "tool_message_ids (ToolMessage c tid # ms) =
     (if tid \<noteq> [] then insert tid (tool_message_ids ms) else tool_message_ids ms)"
| "tool_message_ids (m # ms) = tool_message_ids ms"

section \<open>Grouping (lines 58-116)\<close>

type_synonym msg_sequence = "message list \<times> bool"

type_synonym group_state = "msg_sequence list \<times> message list \<times> string set"

text \<open>\<open>if current_sequence: sequences.append((current_sequence, len(pending) == 0))\<close>\<close>

definition close_seq :: "msg_sequence list \<Rightarrow> message list \<Rightarrow> string set \<Rightarrow> msg_sequence list" where
  "close_seq sequences current_sequence pending =
     (if current_sequence \<noteq> [] then sequences @ [(current_sequence, pending = {})]
      else sequences)"

fun group_step :: "message \<Rightarrow> group_state \<Rightarrow> group_state" where
  "group_step (AIMessage c tcs) (sequences, current_sequence, pending) =
     (let sequences1 = close_seq sequences current_sequence pending;
          current1 = (if current_sequence \<noteq> [] then [] else current_sequence);
          pending1 = (if current_sequence \<noteq> [] then {} else pending)
      in if tcs \<noteq> []
         then (sequences1, current1 @ [AIMessage c tcs], pending_ids tcs \<union> pending1)
         else (sequences1 @ [([AIMessage c tcs], True)], current1, pending1))"
| "group_step (ToolMessage c tid) (sequences, current_sequence, pending) =
     (if tid \<noteq> [] \<and> tid \<in> pending
      then (sequences, current_sequence @ [ToolMessage c tid], pending - {tid})
      else (close_seq sequences current_sequence pending @ [([ToolMessage c tid], True)], [], {}))"
| "group_step m (sequences, current_sequence, pending) =
     (if current_sequence \<noteq> []
      then (sequences @ [(current_sequence, pending = {})] @ [([m], True)], [], {})
      else (sequences @ [([m], True)], current_sequence, pending))"

definition group_messages :: "message list \<Rightarrow> msg_sequence list" where
  "group_messages filtered_messages =
     (case fold group_step filtered_messages ([], [], {}) of
        (sequences, current_sequence, pending) \<Rightarrow> close_seq sequences current_sequence pending)"

section \<open>Selection (lines 118-161)\<close>

definition ceiling_tokens :: nat where
  "ceiling_tokens = 30000"

text \<open>
  The backward scan. The state is \<open>(messages_to_add, total_tokens_approx, message_count)\<close>;
  \<open>continue\<close> goes on with the state unchanged, \<open>break\<close> returns it.
\<close>

fun select_loop :: "int \<Rightarrow> int \<Rightarrow> msg_sequence list \<Rightarrow> message list \<times> nat \<times> nat \<Rightarrow> message list" where
  "select_loop max_messages max_tokens_approx [] (messages_to_add, total_tokens_approx, message_count) =
     messages_to_add"
| "select_loop max_messages max_tokens_approx ((seq, is_complete) # older)
       (messages_to_add, total_tokens_approx, message_count) =
     (if \<not> is_complete \<and> list_ex ai_with_tool_calls seq
      then select_loop max_messages max_tokens_approx older (messages_to_add, total_tokens_approx, message_count)
      else if list_ex (\<lambda>msg. get_message_tokens msg > ceiling_tokens) seq \<and> messages_to_add \<noteq> []
      then select_loop max_messages max_tokens_approx older (messages_to_add, total_tokens_approx, message_count)
      else if int (message_count + length seq) \<le> max_messages
              \<and> int (total_tokens_approx + seq_tokens seq) \<le> max_tokens_approx
      then select_loop max_messages max_tokens_approx older
             (messages_to_add @ seq, total_tokens_approx + seq_tokens seq, message_count + length seq)
      else messages_to_add)"

text \<open>
  \<open>messages_to_add.reverse()\<close> reverses the flat list of messages, hence also the order
  inside every sequence that was appended with \<open>extend\<close>.
\<close>

definition select_messages :: "int \<Rightarrow> int \<Rightarrow> nat \<Rightarrow> msg_sequence list \<Rightarrow> message list" where
  "select_messages max_messages max_tokens_approx system_tokens sequences =
     rev (select_loop max_messages max_tokens_approx (rev sequences) ([], system_tokens, 0))"

section \<open>Validation (lines 163-298)\<close>

text \<open>
  A tool message that answers one of the ids of \<open>required\<close>: the test of the skipping
  loops (lines 209-215, 385-388, 399-402).
\<close>

fun answers :: "string set \<Rightarrow> message \<Rightarrow> bool" where
  "answers required (ToolMessage c tid) = (tid \<noteq> [] \<and> tid \<in> required)"
| "answers required m = False"

text \<open>
  Lines 225-255: the tool messages right after an accepted \<open>AIMessage\<close>. A tool message
  for a required id is passed over (\<open>j += 1\<close>) and appended unless its id was appended
  before; anything else ends the loop. The result is what was appended and what is left
  from index \<open>j\<close> on.
\<close>

fun include_tools :: "string set \<Rightarrow> string set \<Rightarrow> message list \<Rightarrow> message list \<times> message list" where
  "include_tools required included [] = ([], [])"
| "include_tools required included (ToolMessage c tid # rest) =
     (if tid \<noteq> [] \<and> tid \<in> required
      then (case include_tools required (insert tid included) rest of
              (appended, left) \<Rightarrow>
                (if tid \<notin> included then ToolMessage c tid # appended else appended, left))
      else ([], ToolMessage c tid # rest))"
| "include_tools required included (m # rest) = ([], m # rest)"

text \<open>
  The id of a tool call as lines 273-277 and 415 read it, before any truthiness test.
\<close>

fun raw_id :: "tool_call \<Rightarrow> string option" where
  "raw_id (ObjCall i) = i"
| "raw_id (DictCall i) = i"

fun declares :: "string \<Rightarrow> message \<Rightarrow> bool" where
  "declares tid (AIMessage c tcs) = list_ex (\<lambda>tc. raw_id tc = Some tid) tcs"
| "declares tid m = False"

lemma include_tools_length: "length (snd (include_tools required included ms)) \<le> length ms"
  by (induction required included ms rule: include_tools.induct) (auto split: prod.splits)

function validate :: "string set \<Rightarrow> message list \<Rightarrow> message list \<Rightarrow> message list" where
  "validate keys validated_messages [] = validated_messages"
| "validate keys validated_messages (AIMessage c tcs # rest) =
     (if tcs \<noteq> [] then
        (let required_tool_call_ids = required_ids tcs in
         if required_tool_call_ids = {}
         then validate keys (validated_messages @ [AIMessage c tcs]) rest
         else if required_tool_call_ids - keys \<noteq> {}
         then validate keys validated_messages (dropWhile (answers required_tool_call_ids) rest)
         else validate keys
                (validated_messages @ [AIMessage c tcs]
                   @ fst (include_tools required_tool_call_ids {} rest))
                (snd (include_tools required_tool_call_ids {} rest)))
      else validate keys (validated_messages @ [AIMessage c tcs]) rest)"
| "validate keys validated_messages (ToolMessage c tid # rest) =
     (let is_handled = list_ex (declares tid) validated_messages
      in if \<not> is_handled then validate keys validated_messages rest
         else validate keys validated_messages rest)"
| "validate keys validated_messages (SystemMessage c # rest) =
     validate keys (validated_messages @ [SystemMessage c]) rest"
| "validate keys validated_messages (HumanMessage c # rest) =
     validate keys (validated_messages @ [HumanMessage c]) rest"
| "validate keys validated_messages (OtherMessage c # rest) =
     validate keys (validated_messages @ [OtherMessage c]) rest"
  by pat_completeness auto
termination
proof (relation "measure (\<lambda>(keys, validated_messages, ms). length ms)")
  show "wf (measure (\<lambda>(keys, validated_messages, ms). length ms))" by simp
next
  fix keys :: "string set" and validated_messages :: "message list" and c tcs rest x
  show "((keys, validated_messages, dropWhile (answers x) rest),
         keys, validated_messages, AIMessage c tcs # rest)
        \<in> measure (\<lambda>(keys, validated_messages, ms). length ms)"
    by (simp add: le_imp_less_Suc length_dropWhile_le)
next
  fix keys :: "string set" and validated_messages :: "message list" and c tcs rest x
  show "((keys, validated_messages @ [AIMessage c tcs] @ fst (include_tools x {} rest),
          snd (include_tools x {} rest)),
         keys, validated_messages, AIMessage c tcs # rest)
        \<in> measure (\<lambda>(keys, validated_messages, ms). length ms)"
    by (simp add: le_imp_less_Suc include_tools_length)
qed simp_all

section \<open>Final safety check (lines 300-431)\<close>

text \<open>
  Lines 342-354: the ids of \<open>required\<close> found among the tool messages that follow, up to
  the first message that is not a tool message. Every tool message is passed over.
\<close>

fun scan_found :: "string set \<Rightarrow> message list \<Rightarrow> string set" where
  "scan_found required [] = {}"
| "scan_found required (ToolMessage c tid # rest) =
     (if tid \<noteq> [] \<and> tid \<in> required then insert tid (scan_found required rest)
      else scan_found required rest)"
| "scan_found required (m # rest) = {}"

text \<open>
  Lines 362-378: here a tool message whose id was included before ends the loop, as does
  one for another id.
\<close>

fun include_tools_once :: "string set \<Rightarrow> string set \<Rightarrow> message list \<Rightarrow> message list \<times> message list" where
  "include_tools_once required included [] = ([], [])"
| "include_tools_once required included (ToolMessage c tid # rest) =
     (if tid \<noteq> [] \<and> tid \<in> required \<and> tid \<notin> included
      then (case include_tools_once required (insert tid included) rest of
              (appended, left) \<Rightarrow> (ToolMessage c tid # appended, left))
      else ([], ToolMessage c tid # rest))"
| "include_tools_once required included (m # rest) = ([], m # rest)"

lemma include_tools_once_length:
  "length (snd (include_tools_once required included ms)) \<le> length ms"
  by (induction required included ms rule: include_tools_once.induct) (auto split: prod.splits)

function final_clean :: "string set \<Rightarrow> message list \<Rightarrow> message list \<Rightarrow> message list" where
  "final_clean keys final_cleaned_messages [] = final_cleaned_messages"
| "final_clean keys final_cleaned_messages (AIMessage c tcs # rest) =
     (if tcs \<noteq> [] then
        (let required = required_ids tcs;
             all_tool_call_ids_present = (required \<noteq> {} \<and> required \<subseteq> keys)
         in if all_tool_call_ids_present then
              (if scan_found required rest = required
               then final_clean keys
                      (final_cleaned_messages @ [AIMessage c tcs]
                         @ fst (include_tools_once required {} rest))
                      (snd (include_tools_once required {} rest))
               else final_clean keys final_cleaned_messages (dropWhile (answers required) rest))
            else final_clean keys final_cleaned_messages (dropWhile (answers required) rest))
      else final_clean keys (final_cleaned_messages @ [AIMessage c tcs]) rest)"
| "final_clean keys final_cleaned_messages (ToolMessage c tid # rest) =
     (let is_included = (tid \<noteq> [] \<and> list_ex (declares tid) final_cleaned_messages)
      in if \<not> is_included then final_clean keys final_cleaned_messages rest
         else final_clean keys final_cleaned_messages rest)"
| "final_clean keys final_cleaned_messages (SystemMessage c # rest) =
     final_clean keys (final_cleaned_messages @ [SystemMessage c]) rest"
| "final_clean keys final_cleaned_messages (HumanMessage c # rest) =
     final_clean keys (final_cleaned_messages @ [HumanMessage c]) rest"
| "final_clean keys final_cleaned_messages (OtherMessage c # rest) =
     final_clean keys (final_cleaned_messages @ [OtherMessage c]) rest"
  by pat_completeness auto
termination
proof (relation "measure (\<lambda>(keys, final_cleaned_messages, ms). length ms)")
  show "wf (measure (\<lambda>(keys, final_cleaned_messages, ms). length ms))" by simp
next
  fix keys :: "string set" and final_cleaned_messages :: "message list" and c tcs rest x
  show "((keys, final_cleaned_messages @ [AIMessage c tcs] @ fst (include_tools_once x {} rest),
          snd (include_tools_once x {} rest)),
         keys, final_cleaned_messages, AIMessage c tcs # rest)
        \<in> measure (\<lambda>(keys, final_cleaned_messages, ms). length ms)"
    by (simp add: le_imp_less_Suc include_tools_once_length)
qed (simp_all add: le_imp_less_Suc length_dropWhile_le)

section \<open>The function\<close>

definition truncate_messages :: "message list \<Rightarrow> content option \<Rightarrow> int \<Rightarrow> int \<Rightarrow> message list" where
  "truncate_messages messages system_message max_messages max_tokens_approx =
     (let result = (case system_message of Some s \<Rightarrow> [SystemMessage s] | None \<Rightarrow> []);
          system_tokens =
            (case system_message of Some s \<Rightarrow> get_message_tokens (SystemMessage s) | None \<Rightarrow> 0);
          filtered_messages = filter (\<lambda>msg. \<not> is_system msg) messages
      in if filtered_messages = [] then result
         else
           (let sequences = group_messages filtered_messages;
                messages_to_add =
                  select_messages max_messages max_tokens_approx system_tokens sequences;
                validated_messages =
                  validate (tool_message_ids messages_to_add) [] messages_to_add;
                result1 = result @ validated_messages;
                system_msg_in_result =
                  (case result1 of [] \<Rightarrow> None
                   | m # ms \<Rightarrow> if is_system m then Some m else None);
                messages_to_process =
                  (case result1 of [] \<Rightarrow> result1
                   | m # ms \<Rightarrow> if is_system m then ms else result1);
                final_cleaned_messages =
                  final_clean (tool_message_ids messages_to_process) [] messages_to_process
            in case system_msg_in_result of
                 Some m \<Rightarrow> m # final_cleaned_messages
               | None \<Rightarrow>
                   (case system_message of
                      Some s \<Rightarrow> SystemMessage s # final_cleaned_messages
                    | None \<Rightarrow> final_cleaned_messages)))"

section \<open>The passes without their accumulators\<close>

text \<open>
  Both passes only ever append to their accumulator, so each is the accumulator followed
  by the pass run from the empty list. The equations below are the loops read that way.
\<close>

lemma validate_acc: "validate keys acc ms = acc @ validate keys [] ms"
proof (induction ms arbitrary: acc rule: length_induct)
  case (1 ms)
  note IH = 1
  show ?case
  proof (cases ms)
    case Nil
    then show ?thesis by simp
  next
    case (Cons m rest)
    have r: "\<And>a. validate keys a rest = a @ validate keys [] rest"
    proof -
      fix a
      have "length rest < length ms" using Cons by simp
      with IH show "validate keys a rest = a @ validate keys [] rest" by blast
    qed
    show ?thesis
    proof (cases m)
      case (AIMessage c tcs)
      have d: "\<And>a P. validate keys a (dropWhile P rest) = a @ validate keys [] (dropWhile P rest)"
      proof -
        fix a P
        have "length (dropWhile P rest) < length ms"
          using Cons by (simp add: le_imp_less_Suc length_dropWhile_le)
        with IH show "validate keys a (dropWhile P rest) = a @ validate keys [] (dropWhile P rest)"
          by blast
      qed
      have i: "\<And>a R. validate keys a (snd (include_tools R {} rest))
                 = a @ validate keys [] (snd (include_tools R {} rest))"
      proof -
        fix a R
        have "length (snd (include_tools R {} rest)) < length ms"
          using Cons by (simp add: le_imp_less_Suc include_tools_length)
        with IH show "validate keys a (snd (include_tools R {} rest))
                 = a @ validate keys [] (snd (include_tools R {} rest))"
          by blast
      qed
      show ?thesis
        unfolding Cons AIMessage
        by (simp add: Let_def r[of "acc @ _"] r[of "[_]"] d[of acc] i[of "acc @ _"] i[of "_ # _"])
    qed (simp_all add: Cons r[of "acc @ _"] r[of "[_]"] r[of acc])
  qed
qed


lemma final_clean_acc: "final_clean keys acc ms = acc @ final_clean keys [] ms"
proof (induction ms arbitrary: acc rule: length_induct)
  case (1 ms)
  note IH = 1
  show ?case
  proof (cases ms)
    case Nil
    then show ?thesis by simp
  next
    case (Cons m rest)
    have r: "\<And>a. final_clean keys a rest = a @ final_clean keys [] rest"
    proof -
      fix a
      have "length rest < length ms" using Cons by simp
      with IH show "final_clean keys a rest = a @ final_clean keys [] rest" by blast
    qed
    show ?thesis
    proof (cases m)
      case (AIMessage c tcs)
      have d: "\<And>a P. final_clean keys a (dropWhile P rest)
                 = a @ final_clean keys [] (dropWhile P rest)"
      proof -
        fix a P
        have "length (dropWhile P rest) < length ms"
          using Cons by (simp add: le_imp_less_Suc length_dropWhile_le)
        with IH show "final_clean keys a (dropWhile P rest)
                 = a @ final_clean keys [] (dropWhile P rest)"
          by blast
      qed
      have i: "\<And>a R. final_clean keys a (snd (include_tools_once R {} rest))
                 = a @ final_clean keys [] (snd (include_tools_once R {} rest))"
      proof -
        fix a R
        have "length (snd (include_tools_once R {} rest)) < length ms"
          using Cons by (simp add: le_imp_less_Suc include_tools_once_length)
        with IH show "final_clean keys a (snd (include_tools_once R {} rest))
                 = a @ final_clean keys [] (snd (include_tools_once R {} rest))"
          by blast
      qed
      show ?thesis
        unfolding Cons AIMessage
        by (simp add: Let_def r[of "acc @ _"] r[of "[_]"] d[of acc] i[of "acc @ _"] i[of "_ # _"])
    qed (simp_all add: Cons r[of "acc @ _"] r[of "[_]"] r[of acc])
  qed
qed

fun is_tool :: "message \<Rightarrow> bool" where
  "is_tool (ToolMessage c tid) = True"
| "is_tool m = False"

fun tool_call_id :: "message \<Rightarrow> string" where
  "tool_call_id (ToolMessage c tid) = tid"
| "tool_call_id m = []"

fun plain :: "message \<Rightarrow> bool" where
  "plain (ToolMessage c tid) = False"
| "plain (AIMessage c tcs) = (tcs = [])"
| "plain m = True"

lemma validate_Nil: "validate keys [] [] = []"
  by simp

lemma validate_AI:
  "validate keys [] (AIMessage c tcs # rest) =
     (if tcs = [] \<or> required_ids tcs = {} then AIMessage c tcs # validate keys [] rest
      else if \<not> required_ids tcs \<subseteq> keys
      then validate keys [] (dropWhile (answers (required_ids tcs)) rest)
      else AIMessage c tcs # fst (include_tools (required_ids tcs) {} rest)
             @ validate keys [] (snd (include_tools (required_ids tcs) {} rest)))"
  by (simp add: Let_def validate_acc[of _ "_ # _"])

lemma validate_Tool: "validate keys [] (ToolMessage c tid # rest) = validate keys [] rest"
  by simp

lemma validate_plain: "plain m \<Longrightarrow> validate keys [] (m # rest) = m # validate keys [] rest"
  by (cases m) (simp_all add: validate_acc[of _ "[_]"])

lemma final_clean_Nil: "final_clean keys [] [] = []"
  by simp

lemma final_clean_AI:
  "final_clean keys [] (AIMessage c tcs # rest) =
     (if tcs = [] then AIMessage c tcs # final_clean keys [] rest
      else if required_ids tcs \<noteq> {} \<and> required_ids tcs \<subseteq> keys
              \<and> scan_found (required_ids tcs) rest = required_ids tcs
      then AIMessage c tcs # fst (include_tools_once (required_ids tcs) {} rest)
             @ final_clean keys [] (snd (include_tools_once (required_ids tcs) {} rest))
      else final_clean keys [] (dropWhile (answers (required_ids tcs)) rest))"
  by (simp add: Let_def final_clean_acc[of _ "_ # _"])

lemma final_clean_Tool: "final_clean keys [] (ToolMessage c tid # rest) = final_clean keys [] rest"
  by simp

lemma final_clean_plain:
  "plain m \<Longrightarrow> final_clean keys [] (m # rest) = m # final_clean keys [] rest"
  by (cases m) (simp_all add: final_clean_acc[of _ "[_]"])

declare validate.simps [simp del] final_clean.simps [simp del]

lemmas pass_simps = validate_Nil validate_AI validate_Tool validate_plain
  final_clean_Nil final_clean_AI final_clean_Tool final_clean_plain

section \<open>The shape of a validated list\<close>

lemma pass_induct [case_names Nil AI Tool Plain]:
  assumes "P []"
    and "\<And>c tcs rest. (\<And>ys. length ys \<le> length rest \<Longrightarrow> P ys) \<Longrightarrow> P (AIMessage c tcs # rest)"
    and "\<And>c tid rest. P rest \<Longrightarrow> P (ToolMessage c tid # rest)"
    and "\<And>m rest. plain m \<Longrightarrow> P rest \<Longrightarrow> P (m # rest)"
  shows "P ms"
proof (induction ms rule: length_induct)
  case (1 ms)
  show ?case
  proof (cases ms)
    case Nil
    then show ?thesis using assms(1) by simp
  next
    case (Cons m rest)
    have IH: "\<And>ys. length ys \<le> length rest \<Longrightarrow> P ys"
      using 1 Cons by (simp add: le_imp_less_Suc)
    show ?thesis
    proof (cases m)
      case (AIMessage c tcs)
      then show ?thesis using assms(2) IH Cons by blast
    next
      case (ToolMessage c tid)
      then show ?thesis using assms(3) IH Cons by blast
    next
      case (SystemMessage c)
      then have "plain m" by simp
      then show ?thesis using assms(4) IH Cons by blast
    next
      case (HumanMessage c)
      then have "plain m" by simp
      then show ?thesis using assms(4) IH Cons by blast
    next
      case (OtherMessage c)
      then have "plain m" by simp
      then show ?thesis using assms(4) IH Cons by blast
    qed
  qed
qed

lemma required_ids_nonempty: "[] \<notin> required_ids tcs"
proof (induction tcs)
  case Nil
  show ?case by simp
next
  case (Cons tc tcs)
  then show ?case by (cases tc rule: any_id.cases) (auto split: if_splits)
qed

inductive blocks :: "message list \<Rightarrow> bool" where
  blocks_Nil: "blocks []"
| blocks_plain: "plain m \<Longrightarrow> blocks ms \<Longrightarrow> blocks (m # ms)"
| blocks_AI: "tcs \<noteq> [] \<Longrightarrow> list_all is_tool ts \<Longrightarrow> distinct (map tool_call_id ts)
     \<Longrightarrow> set (map tool_call_id ts) \<subseteq> required_ids tcs \<Longrightarrow> blocks ms
     \<Longrightarrow> blocks (AIMessage c tcs # ts @ ms)"

inductive complete_blocks :: "message list \<Rightarrow> bool" where
  complete_Nil: "complete_blocks []"
| complete_plain: "plain m \<Longrightarrow> complete_blocks ms \<Longrightarrow> complete_blocks (m # ms)"
| complete_AI: "tcs \<noteq> [] \<Longrightarrow> required_ids tcs \<noteq> {} \<Longrightarrow> list_all is_tool ts
     \<Longrightarrow> distinct (map tool_call_id ts)
     \<Longrightarrow> set (map tool_call_id ts) = required_ids tcs \<Longrightarrow> complete_blocks ms
     \<Longrightarrow> complete_blocks (AIMessage c tcs # ts @ ms)"

lemma blocks_no_tool_head: "blocks ms \<Longrightarrow> ms = [] \<or> \<not> is_tool (hd ms)"
  by (induction rule: blocks.induct) (auto elim: plain.elims)

lemma complete_blocks_no_tool_head: "complete_blocks ms \<Longrightarrow> ms = [] \<or> \<not> is_tool (hd ms)"
  by (induction rule: complete_blocks.induct) (auto elim: plain.elims)

lemma include_tools_fst:
  "list_all is_tool (fst (include_tools R I ms))
   \<and> distinct (map tool_call_id (fst (include_tools R I ms)))
   \<and> set (map tool_call_id (fst (include_tools R I ms))) \<subseteq> R - I"
  by (induction R I ms rule: include_tools.induct) (auto split: prod.splits; blast)+

lemma blocks_validate: "blocks (validate keys [] ms)"
proof (induction ms rule: pass_induct)
  case Nil
  show ?case by (simp add: pass_simps blocks_Nil)
next
  case (AI c tcs rest)
  have r: "blocks (validate keys [] rest)" using AI by simp
  have d: "blocks (validate keys [] (dropWhile (answers (required_ids tcs)) rest))"
    using AI by (simp add: length_dropWhile_le)
  have i: "blocks (validate keys [] (snd (include_tools (required_ids tcs) {} rest)))"
    using AI by (simp add: include_tools_length)
  have b0: "tcs = [] \<Longrightarrow> blocks (AIMessage c tcs # validate keys [] rest)"
    using r by (simp add: blocks_plain)
  have b1: "tcs \<noteq> [] \<Longrightarrow> required_ids tcs = {} \<Longrightarrow> blocks (AIMessage c tcs # validate keys [] rest)"
    using blocks_AI[of tcs "[]" "validate keys [] rest" c] r by simp
  have b2: "tcs \<noteq> [] \<Longrightarrow> blocks (AIMessage c tcs # fst (include_tools (required_ids tcs) {} rest)
             @ validate keys [] (snd (include_tools (required_ids tcs) {} rest)))"
    using blocks_AI[of tcs "fst (include_tools (required_ids tcs) {} rest)" _ c] i
      include_tools_fst[of "required_ids tcs" "{}" rest] by simp
  show ?case
    unfolding validate_AI using b0 b1 b2 d by auto
next
  case (Tool c tid rest)
  then show ?case by (simp add: pass_simps)
next
  case (Plain m rest)
  then show ?case by (simp add: pass_simps blocks_plain)
qed

lemma hd_not_tool_cases:
  assumes "ms = [] \<or> \<not> is_tool (hd ms)"
  obtains "ms = []" | m rest where "ms = m # rest" "\<not> is_tool m"
  using assms by (cases ms) auto

lemma scan_found_block:
  assumes "list_all is_tool ts" "set (map tool_call_id ts) \<subseteq> R" "[] \<notin> R"
    "ms = [] \<or> \<not> is_tool (hd ms)"
  shows "scan_found R (ts @ ms) = set (map tool_call_id ts)"
  using assms
proof (induction ts)
  case Nil
  then show ?case by (cases ms; cases "hd ms") auto
next
  case (Cons t ts)
  then show ?case by (cases t) auto
qed

lemma include_tools_once_block:
  assumes "list_all is_tool ts" "distinct (map tool_call_id ts)"
    "set (map tool_call_id ts) \<subseteq> R - I" "[] \<notin> R" "ms = [] \<or> \<not> is_tool (hd ms)"
  shows "include_tools_once R I (ts @ ms) = (ts, ms)"
  using assms
proof (induction ts arbitrary: I)
  case Nil
  then show ?case by (cases ms; cases "hd ms") auto
next
  case (Cons t ts)
  from Cons.prems(1) obtain c tid where t: "t = ToolMessage c tid" by (cases t) auto
  have tid: "tid \<noteq> []" "tid \<in> R" "tid \<notin> I"
    using Cons.prems(3,4) t by auto
  have "set (map tool_call_id ts) \<subseteq> R - insert tid I"
    using Cons.prems(2,3) t by auto
  then have "include_tools_once R (insert tid I) (ts @ ms) = (ts, ms)"
    using Cons.IH[of "insert tid I"] Cons.prems by simp
  then show ?case using t tid by simp
qed

lemma include_tools_block:
  assumes "list_all is_tool ts" "distinct (map tool_call_id ts)"
    "set (map tool_call_id ts) \<subseteq> R - I" "[] \<notin> R" "ms = [] \<or> \<not> is_tool (hd ms)"
  shows "include_tools R I (ts @ ms) = (ts, ms)"
  using assms
proof (induction ts arbitrary: I)
  case Nil
  then show ?case by (cases ms; cases "hd ms") auto
next
  case (Cons t ts)
  from Cons.prems(1) obtain c tid where t: "t = ToolMessage c tid" by (cases t) auto
  have tid: "tid \<noteq> []" "tid \<in> R" "tid \<notin> I"
    using Cons.prems(3,4) t by auto
  have "set (map tool_call_id ts) \<subseteq> R - insert tid I"
    using Cons.prems(2,3) t by auto
  then have "include_tools R (insert tid I) (ts @ ms) = (ts, ms)"
    using Cons.IH[of "insert tid I"] Cons.prems by simp
  then show ?case using t tid by simp
qed

lemma dropWhile_block:
  assumes "list_all is_tool ts" "set (map tool_call_id ts) \<subseteq> R" "[] \<notin> R"
    "ms = [] \<or> \<not> is_tool (hd ms)"
  shows "dropWhile (answers R) (ts @ ms) = ms"
  using assms
proof (induction ts)
  case Nil
  then show ?case by (cases ms; cases "hd ms") auto
next
  case (Cons t ts)
  then show ?case by (cases t) auto
qed

lemma complete_final_clean: "blocks ms \<Longrightarrow> complete_blocks (final_clean keys [] ms)"
proof (induction rule: blocks.induct)
  case blocks_Nil
  show ?case by (simp add: pass_simps complete_Nil)
next
  case (blocks_plain m ms)
  then show ?case by (simp add: pass_simps complete_plain)
next
  case (blocks_AI tcs ts ms c)
  let ?R = "required_ids tcs"
  have hd: "ms = [] \<or> \<not> is_tool (hd ms)"
    using blocks_AI.hyps(5) by (rule blocks_no_tool_head)
  have ne: "[] \<notin> ?R" by (rule required_ids_nonempty)
  have sf: "scan_found ?R (ts @ ms) = set (map tool_call_id ts)"
    using blocks_AI.hyps(2,4) ne hd by (rule scan_found_block)
  have dw: "dropWhile (answers ?R) (ts @ ms) = ms"
    using blocks_AI.hyps(2,4) ne hd by (rule dropWhile_block)
  have io: "include_tools_once ?R {} (ts @ ms) = (ts, ms)"
    using blocks_AI.hyps(2,3) _ ne hd by (rule include_tools_once_block) (use blocks_AI.hyps(4) in simp)
  show ?case
  proof (cases "?R \<noteq> {} \<and> ?R \<subseteq> keys \<and> set (map tool_call_id ts) = ?R")
    case True
    then have "final_clean keys [] (AIMessage c tcs # ts @ ms)
                 = AIMessage c tcs # ts @ final_clean keys [] ms"
      using blocks_AI.hyps(1) sf io by (simp add: pass_simps)
    moreover have "complete_blocks (AIMessage c tcs # ts @ final_clean keys [] ms)"
      using blocks_AI.hyps(1,2,3) True blocks_AI.IH by (intro complete_AI) auto
    ultimately show ?thesis by simp
  next
    case False
    then have "final_clean keys [] (AIMessage c tcs # ts @ ms) = final_clean keys [] ms"
      using blocks_AI.hyps(1) sf dw by (auto simp add: pass_simps)
    then show ?thesis using blocks_AI.IH by simp
  qed
qed

lemma tool_message_ids_append:
  "tool_message_ids (xs @ ys) = tool_message_ids xs \<union> tool_message_ids ys"
  by (induction xs rule: tool_message_ids.induct) auto

lemma tool_message_ids_tools:
  "list_all is_tool ts \<Longrightarrow> [] \<notin> set (map tool_call_id ts)
     \<Longrightarrow> tool_message_ids ts = set (map tool_call_id ts)"
  by (induction ts rule: tool_message_ids.induct) auto

lemma validate_fixpoint:
  "complete_blocks ms \<Longrightarrow> tool_message_ids ms \<subseteq> keys \<Longrightarrow> validate keys [] ms = ms"
proof (induction rule: complete_blocks.induct)
  case complete_Nil
  show ?case by (simp add: pass_simps)
next
  case (complete_plain m ms)
  then have "tool_message_ids ms \<subseteq> keys" by (cases m) (auto split: if_splits)
  then show ?case using complete_plain by (simp add: pass_simps)
next
  case (complete_AI tcs ts ms c)
  let ?R = "required_ids tcs"
  have hd: "ms = [] \<or> \<not> is_tool (hd ms)"
    using complete_AI.hyps(6) by (rule complete_blocks_no_tool_head)
  have ne: "[] \<notin> ?R" by (rule required_ids_nonempty)
  have it: "include_tools ?R {} (ts @ ms) = (ts, ms)"
    using complete_AI.hyps(3,4) _ ne hd by (rule include_tools_block) (use complete_AI.hyps(5) in simp)
  have "tool_message_ids ts = ?R"
    using tool_message_ids_tools[of ts] complete_AI.hyps(3,5) ne by simp
  then have sub: "?R \<subseteq> keys" and ks: "tool_message_ids ms \<subseteq> keys"
    using complete_AI.prems by (auto simp: tool_message_ids_append)
  show ?case
    using complete_AI.hyps(1,2) sub it complete_AI.IH[OF ks] by (simp add: pass_simps)
qed

lemma final_clean_fixpoint:
  "complete_blocks ms \<Longrightarrow> tool_message_ids ms \<subseteq> keys \<Longrightarrow> final_clean keys [] ms = ms"
proof (induction rule: complete_blocks.induct)
  case complete_Nil
  show ?case by (simp add: pass_simps)
next
  case (complete_plain m ms)
  then have "tool_message_ids ms \<subseteq> keys" by (cases m) (auto split: if_splits)
  then show ?case using complete_plain by (simp add: pass_simps)
next
  case (complete_AI tcs ts ms c)
  let ?R = "required_ids tcs"
  have hd: "ms = [] \<or> \<not> is_tool (hd ms)"
    using complete_AI.hyps(6) by (rule complete_blocks_no_tool_head)
  have ne: "[] \<notin> ?R" by (rule required_ids_nonempty)
  have io: "include_tools_once ?R {} (ts @ ms) = (ts, ms)"
    using complete_AI.hyps(3,4) _ ne hd
    by (rule include_tools_once_block) (use complete_AI.hyps(5) in simp)
  have sf: "scan_found ?R (ts @ ms) = ?R"
    using scan_found_block[of ts ?R ms] complete_AI.hyps(3,5) ne hd by simp
  have "tool_message_ids ts = ?R"
    using tool_message_ids_tools[of ts] complete_AI.hyps(3,5) ne by simp
  then have sub: "?R \<subseteq> keys" and ks: "tool_message_ids ms \<subseteq> keys"
    using complete_AI.prems by (auto simp: tool_message_ids_append)
  show ?case
    using complete_AI.hyps(1,2) sub io sf complete_AI.IH[OF ks] by (simp add: pass_simps)
qed

section \<open>What the passes keep\<close>

lemma include_tools_subseq:
  "subseq (fst (include_tools R I ms) @ snd (include_tools R I ms)) ms"
  by (induction R I ms rule: include_tools.induct) (auto split: prod.splits)

lemma include_tools_once_append:
  "fst (include_tools_once R I ms) @ snd (include_tools_once R I ms) = ms"
  by (induction R I ms rule: include_tools_once.induct) (auto split: prod.splits)

lemma subseq_dropWhile: "subseq (dropWhile P xs) xs"
  by (induction xs) auto

lemma subseq_validate: "subseq (validate keys [] ms) ms"
proof (induction ms rule: pass_induct)
  case Nil
  show ?case by (simp add: pass_simps)
next
  case (AI c tcs rest)
  let ?R = "required_ids tcs"
  have r: "subseq (validate keys [] rest) rest" using AI by simp
  have "subseq (validate keys [] (dropWhile (answers ?R) rest)) (dropWhile (answers ?R) rest)"
    using AI by (simp add: length_dropWhile_le)
  then have d: "subseq (validate keys [] (dropWhile (answers ?R) rest)) rest"
    using subseq_dropWhile subseq_order.trans by blast
  have "subseq (validate keys [] (snd (include_tools ?R {} rest))) (snd (include_tools ?R {} rest))"
    using AI by (simp add: include_tools_length)
  then have "subseq (fst (include_tools ?R {} rest) @ validate keys [] (snd (include_tools ?R {} rest)))
               (fst (include_tools ?R {} rest) @ snd (include_tools ?R {} rest))"
    by (simp add: subseq_append')
  then have i: "subseq (fst (include_tools ?R {} rest) @ validate keys [] (snd (include_tools ?R {} rest))) rest"
    using include_tools_subseq subseq_order.trans by blast
  show ?case unfolding validate_AI using r d i by auto
next
  case (Tool c tid rest)
  then show ?case by (auto simp: pass_simps)
next
  case (Plain m rest)
  then show ?case by (simp add: pass_simps)
qed

lemma subseq_final_clean: "subseq (final_clean keys [] ms) ms"
proof (induction ms rule: pass_induct)
  case Nil
  show ?case by (simp add: pass_simps)
next
  case (AI c tcs rest)
  let ?R = "required_ids tcs"
  have r: "subseq (final_clean keys [] rest) rest" using AI by simp
  have "subseq (final_clean keys [] (dropWhile (answers ?R) rest)) (dropWhile (answers ?R) rest)"
    using AI by (simp add: length_dropWhile_le)
  then have d: "subseq (final_clean keys [] (dropWhile (answers ?R) rest)) rest"
    using subseq_dropWhile subseq_order.trans by blast
  have "subseq (final_clean keys [] (snd (include_tools_once ?R {} rest)))
          (snd (include_tools_once ?R {} rest))"
    using AI by (simp add: include_tools_once_length)
  then have "subseq (fst (include_tools_once ?R {} rest)
                @ final_clean keys [] (snd (include_tools_once ?R {} rest)))
               (fst (include_tools_once ?R {} rest) @ snd (include_tools_once ?R {} rest))"
    by (simp add: subseq_append')
  then have i: "subseq (fst (include_tools_once ?R {} rest)
                @ final_clean keys [] (snd (include_tools_once ?R {} rest))) rest"
    by (simp add: include_tools_once_append)
  show ?case unfolding final_clean_AI using r d i by auto
next
  case (Tool c tid rest)
  then show ?case by (auto simp: pass_simps)
next
  case (Plain m rest)
  then show ?case by (simp add: pass_simps)
qed






lemma complete_blocks_answered:
  "complete_blocks ms \<Longrightarrow> AIMessage c tcs \<in> set ms \<Longrightarrow> tcs \<noteq> [] \<Longrightarrow> i \<in> required_ids tcs
     \<Longrightarrow> \<exists>c'. ToolMessage c' i \<in> set ms"
proof (induction rule: complete_blocks.induct)
  case complete_Nil
  then show ?case by simp
next
  case (complete_plain m ms)
  then show ?case by auto
next
  case (complete_AI tcs' ts ms c')
  have tools: "\<And>t. t \<in> set ts \<Longrightarrow> \<exists>c2. t = ToolMessage c2 (tool_call_id t)"
  proof -
    fix t assume "t \<in> set ts"
    then have "is_tool t" using complete_AI.hyps(3) by (simp add: list_all_iff)
    then show "\<exists>c2. t = ToolMessage c2 (tool_call_id t)" by (cases t) auto
  qed
  from complete_AI.prems(1) consider "AIMessage c tcs = AIMessage c' tcs'"
    | "AIMessage c tcs \<in> set ts" | "AIMessage c tcs \<in> set ms" by auto
  then show ?case
  proof cases
    case 1
    then have "i \<in> set (map tool_call_id ts)" using complete_AI.hyps(5) complete_AI.prems(3) by simp
    then obtain t where t: "t \<in> set ts" "tool_call_id t = i" by auto
    then obtain c2 where "t = ToolMessage c2 i" using tools[of t] by auto
    then have "ToolMessage c2 i \<in> set (AIMessage c' tcs' # ts @ ms)" using t by auto
    then show ?thesis by blast
  next
    case 2
    then show ?thesis using tools[of "AIMessage c tcs"] by auto
  next
    case 3
    then show ?thesis using complete_AI.IH complete_AI.prems by auto
  qed
qed

lemma complete_blocks_issued:
  "complete_blocks ms \<Longrightarrow> ms = pre @ ToolMessage c tid # post
     \<Longrightarrow> \<exists>c' tcs. AIMessage c' tcs \<in> set pre \<and> tid \<in> required_ids tcs"
proof (induction arbitrary: pre rule: complete_blocks.induct)
  case complete_Nil
  then show ?case by simp
next
  case (complete_plain m ms)
  then show ?case by (cases pre) auto
next
  case (complete_AI tcs' ts ms c')
  from complete_AI.prems obtain pre' where pre: "pre = AIMessage c' tcs' # pre'"
    and eq: "ts @ ms = pre' @ ToolMessage c tid # post"
    by (cases pre) auto
  from eq consider us where "ts = pre' @ ToolMessage c tid # us"
    | vs where "pre' = ts @ vs" "ms = vs @ ToolMessage c tid # post"
    by (auto simp: append_eq_append_conv2 Cons_eq_append_conv append_eq_Cons_conv)
  then show ?case
  proof cases
    case 1
    then have "tid \<in> set (map tool_call_id ts)" by simp
    then show ?thesis using pre complete_AI.hyps(5) by auto
  next
    case 2
    then show ?thesis using complete_AI.IH[of vs] pre by auto
  qed
qed

section \<open>Facts about grouping and selection\<close>

text \<open>
  Grouping reads a tool-call id only as an attribute (lines 78-80). A message of which
  it reads no id satisfies \<open>no_attr_ids\<close>. LangChain's \<open>ToolCall\<close> is a \<open>TypedDict\<close>: in every
  history that LangChain's types admit each tool call is a mapping (\<open>mapping_calls\<close>), it
  has no \<open>id\<close> attribute, and \<open>no_attr_ids\<close> holds of every message.
\<close>

fun no_attr_ids :: "message \<Rightarrow> bool" where
  "no_attr_ids (AIMessage c tcs) = (pending_ids tcs = {})"
| "no_attr_ids m = True"

fun mapping_call :: "tool_call \<Rightarrow> bool" where
  "mapping_call (DictCall i) = True"
| "mapping_call (ObjCall i) = False"

fun mapping_calls :: "message \<Rightarrow> bool" where
  "mapping_calls (AIMessage c tcs) = list_all mapping_call tcs"
| "mapping_calls m = True"

lemma mapping_call_pending_ids: "list_all mapping_call tcs \<Longrightarrow> pending_ids tcs = {}"
proof (induction tcs)
  case Nil
  show ?case by simp
next
  case (Cons tc tcs)
  then show ?case by (cases tc) auto
qed

lemma mapping_calls_no_attr_ids: "list_all mapping_calls msgs \<Longrightarrow> list_all no_attr_ids msgs"
proof (induction msgs)
  case Nil
  show ?case by simp
next
  case (Cons m msgs)
  then show ?case by (cases m) (auto simp: mapping_call_pending_ids)
qed

definition single :: "message \<Rightarrow> msg_sequence" where
  "single m = ([m], True)"

fun flat_state :: "group_state \<Rightarrow> message list" where
  "flat_state (sequences, current_sequence, pending) = concat (map fst sequences) @ current_sequence"

lemma concat_close_seq: "concat (map fst (close_seq s c p)) = concat (map fst s) @ c"
  by (simp add: close_seq_def)

lemma flat_group_step: "flat_state (group_step m st) = flat_state st @ [m]"
proof -
  obtain s c p where st: "st = (s, c, p)" by (cases st)
  show ?thesis unfolding st
    by (cases m) (simp_all add: Let_def concat_close_seq)
qed

lemma flat_fold: "flat_state (fold group_step xs st) = flat_state st @ xs"
  by (induction xs arbitrary: st) (simp_all add: flat_group_step)

lemma concat_group_messages: "concat (map fst (group_messages xs)) = xs"
proof -
  obtain s c p where f: "fold group_step xs ([], [], {}) = (s, c, p)"
    by (cases "fold group_step xs ([], [], {})")
  have "flat_state (s, c, p) = xs" using flat_fold[of xs "([], [], {})"] f by simp
  then show ?thesis by (simp add: group_messages_def f concat_close_seq)
qed

lemma group_step_single:
  assumes "no_attr_ids m"
  shows "\<exists>s' c'. group_step m (s, c, {}) = (s', c', {})
           \<and> close_seq s' c' {} = close_seq s c {} @ [single m]"
  using assms by (cases m) (auto simp: Let_def close_seq_def single_def)

lemma fold_group_single:
  assumes "list_all no_attr_ids xs"
  shows "\<exists>s' c'. fold group_step xs (s, c, {}) = (s', c', {})
           \<and> close_seq s' c' {} = close_seq s c {} @ map single xs"
  using assms
proof (induction xs arbitrary: s c)
  case Nil
  show ?case by simp
next
  case (Cons x xs)
  then obtain s1 c1 where 1: "group_step x (s, c, {}) = (s1, c1, {})"
    "close_seq s1 c1 {} = close_seq s c {} @ [single x]"
    using group_step_single[of x s c] by auto
  from Cons obtain s2 c2 where 2: "fold group_step xs (s1, c1, {}) = (s2, c2, {})"
    "close_seq s2 c2 {} = close_seq s1 c1 {} @ map single xs"
    by fastforce
  show ?case using 1 2 by simp
qed

lemma group_messages_single:
  "list_all no_attr_ids xs \<Longrightarrow> group_messages xs = map single xs"
  using fold_group_single[of xs "[]" "[]"] by (auto simp: group_messages_def close_seq_def)

lemma select_loop_set:
  "set (select_loop N T gs (acc, tot, cnt)) \<subseteq> set acc \<union> set (concat (map fst gs))"
proof (induction gs arbitrary: acc tot cnt)
  case Nil
  show ?case by simp
next
  case (Cons g gs)
  obtain seq b where g: "g = (seq, b)" by (cases g)
  show ?case unfolding g
    using Cons[of acc tot cnt] Cons[of "acc @ seq" "tot + seq_tokens seq" "cnt + length seq"]
    by (simp only: select_loop.simps) (auto split: if_splits)
qed

lemma seq_tokens_append [simp]: "seq_tokens (xs @ ys) = seq_tokens xs + seq_tokens ys"
  by (simp add: seq_tokens_def)

lemma seq_tokens_Nil [simp]: "seq_tokens [] = 0"
  by (simp add: seq_tokens_def)

lemma seq_tokens_Cons [simp]: "seq_tokens (x # xs) = get_message_tokens x + seq_tokens xs"
  by (simp add: seq_tokens_def)

lemma seq_tokens_rev [simp]: "seq_tokens (rev xs) = seq_tokens xs"
  by (induction xs) simp_all

lemma seq_tokens_subseq: "subseq xs ys \<Longrightarrow> seq_tokens xs \<le> seq_tokens ys"
  by (induction rule: list_emb.induct) simp_all

lemma select_loop_budget:
  "\<exists>added. select_loop N T gs (acc, tot, cnt) = acc @ added
     \<and> (added = [] \<or> (int (cnt + length added) \<le> N \<and> int (tot + seq_tokens added) \<le> T))"
proof (induction gs arbitrary: acc tot cnt)
  case Nil
  show ?case by simp
next
  case (Cons g gs)
  obtain seq b where g: "g = (seq, b)" by (cases g)
  let ?skip = "(\<not> b \<and> list_ex ai_with_tool_calls seq)
     \<or> (list_ex (\<lambda>msg. get_message_tokens msg > ceiling_tokens) seq \<and> acc \<noteq> [])"
  let ?fit = "int (cnt + length seq) \<le> N \<and> int (tot + seq_tokens seq) \<le> T"
  consider (skip) ?skip | (take) "\<not> ?skip" ?fit | (stop) "\<not> ?skip" "\<not> ?fit" by blast
  then show ?case
  proof cases
    case skip
    then have "select_loop N T (g # gs) (acc, tot, cnt) = select_loop N T gs (acc, tot, cnt)"
      unfolding g by auto
    then show ?thesis using Cons[of acc tot cnt] by simp
  next
    case take
    then have e: "select_loop N T (g # gs) (acc, tot, cnt)
            = select_loop N T gs (acc @ seq, tot + seq_tokens seq, cnt + length seq)"
      unfolding g by auto
    from Cons[of "acc @ seq" "tot + seq_tokens seq" "cnt + length seq"]
    obtain added where a: "select_loop N T gs (acc @ seq, tot + seq_tokens seq, cnt + length seq)
         = (acc @ seq) @ added"
      "added = [] \<or> (int (cnt + length seq + length added) \<le> N
          \<and> int (tot + seq_tokens seq + seq_tokens added) \<le> T)"
      by blast
    have "select_loop N T (g # gs) (acc, tot, cnt) = acc @ (seq @ added)" using e a by simp
    moreover have "seq @ added = [] \<or> (int (cnt + length (seq @ added)) \<le> N
          \<and> int (tot + seq_tokens (seq @ added)) \<le> T)"
      using a(2) take(2) by (auto simp: add.assoc)
    ultimately show ?thesis by blast
  next
    case stop
    then have "select_loop N T (g # gs) (acc, tot, cnt) = acc"
      unfolding g by auto
    then show ?thesis by simp
  qed
qed

section \<open>The function as prefix and window\<close>

definition system_prefix :: "content option \<Rightarrow> message list" where
  "system_prefix system_message =
     (case system_message of Some s \<Rightarrow> [SystemMessage s] | None \<Rightarrow> [])"

definition system_tokens :: "content option \<Rightarrow> nat" where
  "system_tokens system_message =
     (case system_message of Some s \<Rightarrow> get_message_tokens (SystemMessage s) | None \<Rightarrow> 0)"

definition selected :: "message list \<Rightarrow> content option \<Rightarrow> int \<Rightarrow> int \<Rightarrow> message list" where
  "selected messages system_message max_messages max_tokens_approx =
     select_messages max_messages max_tokens_approx (system_tokens system_message)
       (group_messages (filter (\<lambda>msg. \<not> is_system msg) messages))"

definition window :: "message list \<Rightarrow> content option \<Rightarrow> int \<Rightarrow> int \<Rightarrow> message list" where
  "window messages system_message max_messages max_tokens_approx =
     (let messages_to_add = selected messages system_message max_messages max_tokens_approx;
          validated_messages = validate (tool_message_ids messages_to_add) [] messages_to_add
      in final_clean (tool_message_ids validated_messages) [] validated_messages)"

lemma subseq_set: "subseq xs ys \<Longrightarrow> set xs \<subseteq> set ys"
  by (induction rule: list_emb.induct) auto

lemma set_selected: "set (selected msgs sys N T) \<subseteq> {m \<in> set msgs. \<not> is_system m}"
proof -
  let ?f = "filter (\<lambda>msg. \<not> is_system msg) msgs"
  have "set (selected msgs sys N T) \<subseteq> set (concat (map fst (rev (group_messages ?f))))"
    using select_loop_set[of N T "rev (group_messages ?f)" "[]" "system_tokens sys" 0]
    by (simp add: selected_def select_messages_def)
  also have "\<dots> = set (concat (map fst (group_messages ?f)))" by auto
  also have "\<dots> = set ?f" by (simp only: concat_group_messages)
  finally show ?thesis by auto
qed

lemma selected_Nil:
  "filter (\<lambda>msg. \<not> is_system msg) msgs = [] \<Longrightarrow> selected msgs sys N T = []"
  by (simp add: selected_def select_messages_def group_messages_def close_seq_def)

lemma truncate_messages_window:
  "truncate_messages msgs sys N T = system_prefix sys @ window msgs sys N T"
proof (cases "filter (\<lambda>msg. \<not> is_system msg) msgs = []")
  case True
  then have "window msgs sys N T = []"
    by (simp add: window_def selected_Nil pass_simps)
  then show ?thesis using True
    by (simp add: truncate_messages_def system_prefix_def)
next
  case False
  let ?M = "selected msgs sys N T"
  let ?V = "validate (tool_message_ids ?M) [] ?M"
  have "set ?V \<subseteq> set ?M" using subseq_validate by (rule subseq_set)
  then have ns: "\<forall>m \<in> set ?V. \<not> is_system m" using set_selected[of msgs sys N T] by blast
  show ?thesis
  proof (cases sys)
    case None
    have "?V = [] \<or> \<not> is_system (hd ?V)" using ns by (cases ?V) auto
    then show ?thesis using False None
      by (cases ?V)
         (auto simp: truncate_messages_def system_prefix_def system_tokens_def window_def
            selected_def Let_def pass_simps)
  next
    case (Some s)
    then show ?thesis using False
      by (simp add: truncate_messages_def system_prefix_def system_tokens_def window_def
            selected_def Let_def)
  qed
qed

lemma subseq_window_selected: "subseq (window msgs sys N T) (selected msgs sys N T)"
  unfolding window_def Let_def
  using subseq_final_clean subseq_validate subseq_order.trans by blast

lemma complete_blocks_window: "complete_blocks (window msgs sys N T)"
  unfolding window_def Let_def by (intro complete_final_clean blocks_validate)

section \<open>Evaluation on concrete inputs\<close>

lemmas eval_simps = truncate_messages_def Let_def group_messages_def close_seq_def
  select_messages_def get_message_tokens_def seq_tokens_def chars_per_token_def
  ceiling_tokens_def pass_simps

lemma scenario_B: "truncate_messages
     [AIMessage (TextContent '''') [DictCall (Some ''t1'')], ToolMessage (TextContent ''result'') ''t1'']
     (Some (TextContent ''sys'')) 10 100000
   = [SystemMessage (TextContent ''sys''),
      AIMessage (TextContent '''') [DictCall (Some ''t1'')], ToolMessage (TextContent ''result'') ''t1'']"
  by (simp add: eval_simps)

section \<open>Atomicity\<close>

text \<open>
  C1 (atomicity). An id is a non-empty string: the source reads an absent or empty id as
  no id. For every input, system message and budgets: whenever the returned list holds
  an \<open>AIMessage\<close> with tool calls, every id it declares is the \<open>tool_call_id\<close> of a
  \<open>ToolMessage\<close> of the returned list; and wherever the returned list holds a
  \<open>ToolMessage\<close>, an \<open>AIMessage\<close> declaring its \<open>tool_call_id\<close> stands before it.
\<close>

theorem truncate_messages_atomic:
  "(\<forall>c tcs i. AIMessage c tcs \<in> set (truncate_messages msgs sys N T) \<and> tcs \<noteq> []
        \<and> i \<in> required_ids tcs
      \<longrightarrow> (\<exists>c'. ToolMessage c' i \<in> set (truncate_messages msgs sys N T)))
   \<and> (\<forall>pre c tid post. truncate_messages msgs sys N T = pre @ ToolMessage c tid # post
      \<longrightarrow> (\<exists>c' tcs. AIMessage c' tcs \<in> set pre \<and> tcs \<noteq> [] \<and> tid \<in> required_ids tcs))"
proof (intro conjI allI impI)
  fix c tcs i
  assume a: "AIMessage c tcs \<in> set (truncate_messages msgs sys N T) \<and> tcs \<noteq> []
        \<and> i \<in> required_ids tcs"
  then have "AIMessage c tcs \<in> set (window msgs sys N T)"
    by (cases sys) (auto simp: truncate_messages_window system_prefix_def)
  then obtain c' where "ToolMessage c' i \<in> set (window msgs sys N T)"
    using complete_blocks_answered[OF complete_blocks_window] a by blast
  then show "\<exists>c'. ToolMessage c' i \<in> set (truncate_messages msgs sys N T)"
    by (auto simp: truncate_messages_window)
next
  fix pre c tid post
  assume a: "truncate_messages msgs sys N T = pre @ ToolMessage c tid # post"
  then obtain pre' where p: "pre = system_prefix sys @ pre'"
    "window msgs sys N T = pre' @ ToolMessage c tid # post"
    by (cases sys; cases pre) (auto simp: truncate_messages_window system_prefix_def)
  then obtain c' tcs where i: "AIMessage c' tcs \<in> set pre'" "tid \<in> required_ids tcs"
    using complete_blocks_issued[OF complete_blocks_window] by blast
  then have "tcs \<noteq> []" by auto
  then show "\<exists>c' tcs. AIMessage c' tcs \<in> set pre \<and> tcs \<noteq> [] \<and> tid \<in> required_ids tcs"
    using i p by auto
qed

theorem truncate_messages_atomic_witness:
  "truncate_messages
     [AIMessage (TextContent '''') [DictCall (Some ''t1'')], ToolMessage (TextContent ''result'') ''t1'']
     (Some (TextContent ''sys'')) 10 100000
   = [SystemMessage (TextContent ''sys''), AIMessage (TextContent '''') [DictCall (Some ''t1'')]]
       @ ToolMessage (TextContent ''result'') ''t1'' # []
   \<and> ''t1'' \<in> required_ids [DictCall (Some ''t1'')]
   \<and> (\<exists>c'. ToolMessage c' ''t1'' \<in> set (truncate_messages
         [AIMessage (TextContent '''') [DictCall (Some ''t1'')], ToolMessage (TextContent ''result'') ''t1'']
         (Some (TextContent ''sys'')) 10 100000))
   \<and> (\<exists>c' tcs. AIMessage c' tcs
          \<in> set [SystemMessage (TextContent ''sys''), AIMessage (TextContent '''') [DictCall (Some ''t1'')]]
        \<and> tcs \<noteq> [] \<and> ''t1'' \<in> required_ids tcs)"
proof -
  let ?msgs = "[AIMessage (TextContent '''') [DictCall (Some ''t1'')],
                ToolMessage (TextContent ''result'') ''t1'']"
  let ?out = "truncate_messages ?msgs (Some (TextContent ''sys'')) 10 100000"
  have e: "?out = [SystemMessage (TextContent ''sys''), AIMessage (TextContent '''') [DictCall (Some ''t1'')]]
       @ ToolMessage (TextContent ''result'') ''t1'' # []"
    by (simp add: eval_simps)
  have r: "''t1'' \<in> required_ids [DictCall (Some ''t1'')]" by simp
  have m: "AIMessage (TextContent '''') [DictCall (Some ''t1'')] \<in> set ?out" by (simp add: e)
  note t = truncate_messages_atomic[of ?msgs "Some (TextContent ''sys'')" 10 100000]
  from t m r have 1: "\<exists>c'. ToolMessage c' ''t1'' \<in> set ?out" by blast
  from t e have 2: "\<exists>c' tcs. AIMessage c' tcs
          \<in> set [SystemMessage (TextContent ''sys''), AIMessage (TextContent '''') [DictCall (Some ''t1'')]]
        \<and> tcs \<noteq> [] \<and> ''t1'' \<in> required_ids tcs" by blast
  show ?thesis using e r 1 2 by blast
qed

section \<open>The system message\<close>

text \<open>
  C8. When a system message is supplied, the returned list is that message followed by
  messages none of which is a system message: it comes first, it is the only one, and it
  is there whatever else is removed.
\<close>

theorem system_message_first:
  "\<exists>body. truncate_messages msgs (Some s) N T = SystemMessage s # body
      \<and> list_all (\<lambda>m. \<not> is_system m) body"
proof -
  have "set (window msgs (Some s) N T) \<subseteq> set (selected msgs (Some s) N T)"
    using subseq_window_selected by (rule subseq_set)
  then have "list_all (\<lambda>m. \<not> is_system m) (window msgs (Some s) N T)"
    using set_selected[of msgs "Some s" N T] by (auto simp: list_all_iff)
  then show ?thesis by (simp add: truncate_messages_window system_prefix_def)
qed

theorem system_message_first_witness:
  "truncate_messages
     [SystemMessage (TextContent ''old''), AIMessage (TextContent '''') [DictCall (Some ''t1'')]]
     (Some (TextContent ''sys'')) 10 100000 = [SystemMessage (TextContent ''sys'')]
   \<and> (\<exists>body. truncate_messages
     [SystemMessage (TextContent ''old''), AIMessage (TextContent '''') [DictCall (Some ''t1'')]]
     (Some (TextContent ''sys'')) 10 100000 = SystemMessage (TextContent ''sys'') # body
      \<and> list_all (\<lambda>m. \<not> is_system m) body)"
  using system_message_first[of
     "[SystemMessage (TextContent ''old''), AIMessage (TextContent '''') [DictCall (Some ''t1'')]]"
     "TextContent ''sys''" 10 100000]
  by (simp add: eval_simps)

section \<open>Tool calls without ids\<close>

lemma complete_blocks_has_ids:
  "complete_blocks ms \<Longrightarrow> AIMessage c tcs \<in> set ms \<Longrightarrow> tcs \<noteq> [] \<Longrightarrow> required_ids tcs \<noteq> {}"
proof (induction rule: complete_blocks.induct)
  case complete_Nil
  then show ?case by simp
next
  case (complete_plain m ms)
  then show ?case by auto
next
  case (complete_AI tcs' ts ms c')
  have "AIMessage c tcs \<notin> set ts" using complete_AI.hyps(3) by (auto simp: list_all_iff)
  then show ?case using complete_AI by auto
qed

lemma no_ids_never_returned:
  assumes "AIMessage c tcs \<in> set (truncate_messages msgs sys N T)" "tcs \<noteq> []"
  shows "required_ids tcs \<noteq> {}"
proof -
  have "AIMessage c tcs \<in> set (window msgs sys N T)"
    using assms(1) by (cases sys) (auto simp: truncate_messages_window system_prefix_def)
  then show ?thesis using complete_blocks_has_ids[OF complete_blocks_window] assms(2) by blast
qed

text \<open>
  C3. An \<open>AIMessage\<close> whose tool calls carry no id passes grouping, selection and the
  validation pass (lines 192-197 append it), and the final safety check then removes it:
  its \<open>all_tool_call_ids_present\<close> starts with \<open>bool(required_ids)\<close>. The claim that the
  message is kept fails at this input, well within budget.
\<close>

theorem malformed_tool_calls_dropped:
  "validate (tool_message_ids [HumanMessage (TextContent ''hi''), AIMessage (TextContent ''x'') [DictCall None]]) []
      [HumanMessage (TextContent ''hi''), AIMessage (TextContent ''x'') [DictCall None]]
     = [HumanMessage (TextContent ''hi''), AIMessage (TextContent ''x'') [DictCall None]]
   \<and> truncate_messages
         [HumanMessage (TextContent ''hi''), AIMessage (TextContent ''x'') [DictCall None]]
         (Some (TextContent ''sys'')) 20 100000
     = [SystemMessage (TextContent ''sys''), HumanMessage (TextContent ''hi'')]"
  by (simp add: eval_simps)

section \<open>Budgets\<close>

lemma selected_budget:
  "selected msgs sys N T = []
   \<or> (int (length (selected msgs sys N T)) \<le> N
      \<and> int (system_tokens sys + seq_tokens (selected msgs sys N T)) \<le> T)"
proof -
  let ?gs = "rev (group_messages (filter (\<lambda>msg. \<not> is_system msg) msgs))"
  obtain added where a: "select_loop N T ?gs ([], system_tokens sys, 0) = [] @ added"
    "added = [] \<or> (int (0 + length added) \<le> N \<and> int (system_tokens sys + seq_tokens added) \<le> T)"
    using select_loop_budget[of N T ?gs "[]" "system_tokens sys" 0] by blast
  have "selected msgs sys N T = rev added"
    using a(1) by (simp add: selected_def select_messages_def)
  then show ?thesis using a(2) by auto
qed

lemma seq_tokens_system_prefix: "seq_tokens (system_prefix sys) = system_tokens sys"
  by (cases sys) (simp_all add: system_prefix_def system_tokens_def)

text \<open>
  C5, as amended. The returned list is the system message, if any, followed by messages
  none of which is a system message. Unless there are none of these, their number is at
  most \<open>max_messages\<close> and the approximate size of the whole returned list, the system
  message included, is at most \<open>max_tokens_approx\<close>. No group is exempt.
\<close>

theorem budgets_respected:
  "\<exists>body. truncate_messages msgs sys N T = system_prefix sys @ body
      \<and> list_all (\<lambda>m. \<not> is_system m) body
      \<and> (body = [] \<or> (int (length body) \<le> N
            \<and> int (seq_tokens (truncate_messages msgs sys N T)) \<le> T))"
proof -
  let ?w = "window msgs sys N T" and ?M = "selected msgs sys N T"
  have sub: "subseq ?w ?M" by (rule subseq_window_selected)
  then have "set ?w \<subseteq> set ?M" by (rule subseq_set)
  then have ns: "list_all (\<lambda>m. \<not> is_system m) ?w"
    using set_selected[of msgs sys N T] by (auto simp: list_all_iff)
  have "?w = [] \<or> (int (length ?w) \<le> N \<and> int (system_tokens sys + seq_tokens ?w) \<le> T)"
  proof (cases "?w = []")
    case True
    then show ?thesis by simp
  next
    case False
    then have "?M \<noteq> []" using sub by auto
    then have b: "int (length ?M) \<le> N" "int (system_tokens sys + seq_tokens ?M) \<le> T"
      using selected_budget[of msgs sys N T] by auto
    have "length ?w \<le> length ?M" using sub by (rule list_emb_length)
    moreover have "seq_tokens ?w \<le> seq_tokens ?M" using sub by (rule seq_tokens_subseq)
    ultimately show ?thesis using b by linarith
  qed
  then show ?thesis using ns
    by (auto simp: truncate_messages_window seq_tokens_system_prefix)
qed

theorem budgets_respected_witness:
  "truncate_messages [HumanMessage (TextContent ''one''), HumanMessage (TextContent ''two'')]
      (Some (TextContent ''sys'')) 1 100000
    = system_prefix (Some (TextContent ''sys'')) @ [HumanMessage (TextContent ''two'')]
   \<and> (\<exists>body. truncate_messages [HumanMessage (TextContent ''one''), HumanMessage (TextContent ''two'')]
        (Some (TextContent ''sys'')) 1 100000 = system_prefix (Some (TextContent ''sys'')) @ body
      \<and> list_all (\<lambda>m. \<not> is_system m) body
      \<and> (body = [] \<or> (int (length body) \<le> 1
            \<and> int (seq_tokens (truncate_messages
                 [HumanMessage (TextContent ''one''), HumanMessage (TextContent ''two'')]
                 (Some (TextContent ''sys'')) 1 100000)) \<le> 100000)))"
  using budgets_respected[of "[HumanMessage (TextContent ''one''), HumanMessage (TextContent ''two'')]"
      "Some (TextContent ''sys'')" 1 100000]
  by (simp add: eval_simps system_prefix_def)

text \<open>
  C5 as stated fails: the system message is returned even when it alone is larger than
  the size budget, and the newest group is not included then.
\<close>

theorem budget_exception_counterexample:
  "truncate_messages [HumanMessage (TextContent ''hi'')]
      (Some (TextContent ''You are a helpful assistant'')) 20 5
     = [SystemMessage (TextContent ''You are a helpful assistant'')]
   \<and> \<not> int (seq_tokens (truncate_messages [HumanMessage (TextContent ''hi'')]
      (Some (TextContent ''You are a helpful assistant'')) 20 5)) \<le> 5
   \<and> HumanMessage (TextContent ''hi'') \<notin> set (truncate_messages [HumanMessage (TextContent ''hi'')]
      (Some (TextContent ''You are a helpful assistant'')) 20 5)"
  by (simp add: eval_simps)

section \<open>The per-message ceiling\<close>








section \<open>Histories of simple turns\<close>

text \<open>
  A simple turn is a \<open>HumanMessage\<close> or an \<open>AIMessage\<close> without tool calls.
\<close>

fun simple_turn :: "message \<Rightarrow> bool" where
  "simple_turn (HumanMessage c) = True"
| "simple_turn (AIMessage c tcs) = (tcs = [])"
| "simple_turn m = False"

lemma simple_turn_facts:
  "simple_turn m \<Longrightarrow> plain m \<and> \<not> is_system m \<and> no_attr_ids m"
  by (cases m) auto

lemma passes_plain:
  "list_all plain ms \<Longrightarrow> validate keys [] ms = ms \<and> final_clean keys' [] ms = ms"
  by (induction ms) (simp_all add: pass_simps)

lemma select_loop_singles:
  assumes "\<forall>m\<in>set ys. get_message_tokens m \<le> ceiling_tokens"
  shows "\<exists>k\<le>length ys. select_loop N T (map single ys) (acc, tot, cnt) = acc @ take k ys
     \<and> (\<forall>j. 0 < j \<and> j \<le> k
            \<longrightarrow> int (cnt + j) \<le> N \<and> int (tot + seq_tokens (take j ys)) \<le> T)
     \<and> (k < length ys
            \<longrightarrow> \<not> (int (cnt + Suc k) \<le> N \<and> int (tot + seq_tokens (take (Suc k) ys)) \<le> T))"
  using assms
proof (induction ys arbitrary: acc tot cnt)
  case Nil
  show ?case by simp
next
  case (Cons y ys)
  have small: "\<not> get_message_tokens y > ceiling_tokens" using Cons.prems by auto
  show ?case
  proof (cases "int (cnt + 1) \<le> N \<and> int (tot + get_message_tokens y) \<le> T")
    case False
    then have "select_loop N T (map single (y # ys)) (acc, tot, cnt) = acc"
      using small by (auto simp: single_def)
    then show ?thesis using False by (intro exI[of _ 0]) simp
  next
    case True
    then have e: "select_loop N T (map single (y # ys)) (acc, tot, cnt)
        = select_loop N T (map single ys) (acc @ [y], tot + get_message_tokens y, cnt + 1)"
      using small by (simp add: single_def)
    from Cons.IH[of "acc @ [y]" "tot + get_message_tokens y" "cnt + 1"] Cons.prems
    obtain k where k: "k \<le> length ys"
      "select_loop N T (map single ys) (acc @ [y], tot + get_message_tokens y, cnt + 1)
         = (acc @ [y]) @ take k ys"
      "\<forall>j. 0 < j \<and> j \<le> k \<longrightarrow> int (cnt + 1 + j) \<le> N
           \<and> int (tot + get_message_tokens y + seq_tokens (take j ys)) \<le> T"
      "k < length ys \<longrightarrow> \<not> (int (cnt + 1 + Suc k) \<le> N
           \<and> int (tot + get_message_tokens y + seq_tokens (take (Suc k) ys)) \<le> T)"
      by auto
    have 1: "Suc k \<le> length (y # ys)" using k(1) by simp
    have 2: "select_loop N T (map single (y # ys)) (acc, tot, cnt) = acc @ take (Suc k) (y # ys)"
      using e k(2) by simp
    have 3: "int (cnt + j) \<le> N \<and> int (tot + seq_tokens (take j (y # ys))) \<le> T"
      if "0 < j \<and> j \<le> Suc k" for j
    proof (cases j)
      case 0
      then show ?thesis using that by simp
    next
      case (Suc i)
      show ?thesis
      proof (cases "i = 0")
        case True
        then show ?thesis using Suc \<open>int (cnt + 1) \<le> N \<and> int (tot + get_message_tokens y) \<le> T\<close>
          by simp
      next
        case False
        then have "0 < i \<and> i \<le> k" using that Suc by simp
        then show ?thesis using k(3) Suc by (simp add: add.assoc)
      qed
    qed
    have 4: "Suc k < length (y # ys) \<longrightarrow> \<not> (int (cnt + Suc (Suc k)) \<le> N
           \<and> int (tot + seq_tokens (take (Suc (Suc k)) (y # ys))) \<le> T)"
      using k(4) by (simp add: add.assoc)
    show ?thesis using 1 2 3 4 by blast
  qed
qed

lemma simple_window:
  assumes "list_all simple_turn msgs"
  shows "window msgs sys N T
     = rev (select_loop N T (map single (rev msgs)) ([], system_tokens sys, 0))"
proof -
  have f: "filter (\<lambda>msg. \<not> is_system msg) msgs = msgs"
    using assms simple_turn_facts by (auto simp: list_all_iff filter_id_conv)
  have "list_all no_attr_ids msgs" using assms simple_turn_facts by (auto simp: list_all_iff)
  then have s: "selected msgs sys N T
     = rev (select_loop N T (map single (rev msgs)) ([], system_tokens sys, 0))"
    by (simp add: selected_def select_messages_def f group_messages_single rev_map)
  have "set (selected msgs sys N T) \<subseteq> set msgs" using set_selected[of msgs sys N T] by auto
  then have "list_all plain (selected msgs sys N T)"
    using assms simple_turn_facts by (auto simp: list_all_iff)
  then show ?thesis using passes_plain s by (simp add: window_def Let_def)
qed

text \<open>
  C6 as stated fails: the size budget also pays for the system message (line 120). Here
  the three turns are simple, within the ceiling, of total size 2 within the budget of
  2, and \<open>max_messages = 2\<close> is smaller than their number; the system message takes 1 of
  the budget and only the newest turn is returned.
\<close>

theorem recent_simple_turns_counterexample:
  "simple_turn (HumanMessage (TextContent ''a''))
   \<and> simple_turn (AIMessage (TextContent ''bbbb'') [])
   \<and> simple_turn (HumanMessage (TextContent ''cccc''))
   \<and> get_message_tokens (HumanMessage (TextContent ''a'')) \<le> ceiling_tokens
   \<and> get_message_tokens (AIMessage (TextContent ''bbbb'') []) \<le> ceiling_tokens
   \<and> get_message_tokens (HumanMessage (TextContent ''cccc'')) \<le> ceiling_tokens
   \<and> int (seq_tokens [HumanMessage (TextContent ''a''), AIMessage (TextContent ''bbbb'') [],
                        HumanMessage (TextContent ''cccc'')]) \<le> 2
   \<and> (2::int) < int (length [HumanMessage (TextContent ''a''), AIMessage (TextContent ''bbbb'') [],
                        HumanMessage (TextContent ''cccc'')])
   \<and> truncate_messages
        [HumanMessage (TextContent ''a''), AIMessage (TextContent ''bbbb'') [],
         HumanMessage (TextContent ''cccc'')]
        (Some (TextContent ''ssss'')) 2 2
      = [SystemMessage (TextContent ''ssss''), HumanMessage (TextContent ''cccc'')]
   \<and> truncate_messages
        [HumanMessage (TextContent ''a''), AIMessage (TextContent ''bbbb'') [],
         HumanMessage (TextContent ''cccc'')]
        (Some (TextContent ''ssss'')) 2 2
      \<noteq> [SystemMessage (TextContent ''ssss''), AIMessage (TextContent ''bbbb'') [],
          HumanMessage (TextContent ''cccc'')]"
  by (simp add: eval_simps)

text \<open>
  C6, as amended. Take a history of simple turns, each within the ceiling of 30000. If
  \<open>0 \<le> max_messages < length\<close> and the system message together with the whole history
  fits the size budget, the returned list is the system message, if any, followed by the
  last \<open>max_messages\<close> turns in their order. And whatever the budgets: if a turn \<open>m\<close>
  does not fit the budgets together with all the turns \<open>newer\<close> after it, the returned
  list is the system message followed by a suffix of \<open>newer\<close>; neither \<open>m\<close> nor anything
  older is in it.
\<close>

theorem recent_simple_turns:
  assumes "list_all simple_turn msgs"
    and "list_all (\<lambda>m. get_message_tokens m \<le> ceiling_tokens) msgs"
  shows "(0 \<le> N \<and> N < int (length msgs) \<and> int (system_tokens sys + seq_tokens msgs) \<le> T
      \<longrightarrow> truncate_messages msgs sys N T
            = system_prefix sys @ drop (length msgs - nat N) msgs)
   \<and> (\<forall>older m newer. msgs = older @ m # newer
        \<and> \<not> (int (length newer) + 1 \<le> N
              \<and> int (system_tokens sys + seq_tokens (m # newer)) \<le> T)
      \<longrightarrow> (\<exists>k. truncate_messages msgs sys N T = system_prefix sys @ drop k newer))"
proof -
  let ?st = "system_tokens sys"
  have "\<forall>m\<in>set (rev msgs). get_message_tokens m \<le> ceiling_tokens"
    using assms(2) by (simp add: list_all_iff)
  from select_loop_singles[OF this, of N T "[]" ?st 0]
  obtain k where k: "k \<le> length msgs"
    "select_loop N T (map single (rev msgs)) ([], ?st, 0) = take k (rev msgs)"
    "\<forall>j. 0 < j \<and> j \<le> k \<longrightarrow> int j \<le> N \<and> int (?st + seq_tokens (take j (rev msgs))) \<le> T"
    "k < length msgs \<longrightarrow> \<not> (int (Suc k) \<le> N \<and> int (?st + seq_tokens (take (Suc k) (rev msgs))) \<le> T)"
    by auto
  have w: "window msgs sys N T = drop (length msgs - k) msgs"
    using simple_window[OF assms(1), of sys N T] k(2) by (simp add: rev_take)
  have out: "truncate_messages msgs sys N T = system_prefix sys @ drop (length msgs - k) msgs"
    using w by (simp add: truncate_messages_window)
  have le: "seq_tokens (take j (rev msgs)) \<le> seq_tokens msgs" for j
  proof -
    have "subseq (take j (rev msgs)) (rev msgs)" by (simp add: prefix_imp_subseq take_is_prefix)
    then show ?thesis using seq_tokens_subseq by fastforce
  qed
  have a: "truncate_messages msgs sys N T = system_prefix sys @ drop (length msgs - nat N) msgs"
    if h: "0 \<le> N \<and> N < int (length msgs) \<and> int (?st + seq_tokens msgs) \<le> T"
  proof -
    have "\<not> k < nat N"
    proof
      assume lt: "k < nat N"
      then have "k < length msgs" using h by linarith
      moreover have "int (Suc k) \<le> N" using lt by linarith
      moreover have "int (?st + seq_tokens (take (Suc k) (rev msgs))) \<le> T"
        using le[of "Suc k"] h by linarith
      ultimately show False using k(4) by blast
    qed
    moreover have "\<not> nat N < k"
    proof
      assume "nat N < k"
      then have "0 < k \<and> k \<le> k" by simp
      then have "int k \<le> N" using k(3) by blast
      then show False using \<open>nat N < k\<close> by linarith
    qed
    ultimately have "k = nat N" by simp
    then show ?thesis using out by simp
  qed
  have b: "\<exists>k'. truncate_messages msgs sys N T = system_prefix sys @ drop k' newer"
    if h: "msgs = older @ m # newer
        \<and> \<not> (int (length newer) + 1 \<le> N \<and> int (?st + seq_tokens (m # newer)) \<le> T)"
    for older m newer
  proof -
    have t: "take (Suc (length newer)) (rev msgs) = rev newer @ [m]" using h by simp
    have "k \<le> length newer"
    proof (rule ccontr)
      assume "\<not> k \<le> length newer"
      then have "0 < Suc (length newer) \<and> Suc (length newer) \<le> k" by simp
      then have "int (Suc (length newer)) \<le> N
          \<and> int (?st + seq_tokens (take (Suc (length newer)) (rev msgs))) \<le> T"
        using k(3) by blast
      then show False using h t by (simp add: add.commute)
    qed
    then have "drop (length msgs - k) msgs = drop (length newer - k) newer"
      using h by (simp add: Suc_diff_le)
    then show ?thesis using out by auto
  qed
  show ?thesis using a b by blast
qed


theorem recent_simple_turns_witness:
  "list_all simple_turn
     [HumanMessage (TextContent ''a''), AIMessage (TextContent ''b'') [], HumanMessage (TextContent ''c'')]
   \<and> list_all (\<lambda>m. get_message_tokens m \<le> ceiling_tokens)
     [HumanMessage (TextContent ''a''), AIMessage (TextContent ''b'') [], HumanMessage (TextContent ''c'')]
   \<and> truncate_messages
       [HumanMessage (TextContent ''a''), AIMessage (TextContent ''b'') [], HumanMessage (TextContent ''c'')]
       (Some (TextContent ''sys'')) 2 100000
     = [SystemMessage (TextContent ''sys''), AIMessage (TextContent ''b'') [], HumanMessage (TextContent ''c'')]
   \<and> (\<exists>k. truncate_messages
       [HumanMessage (TextContent ''a''), AIMessage (TextContent ''b'') [], HumanMessage (TextContent ''c'')]
       (Some (TextContent ''sys'')) 2 100000
     = system_prefix (Some (TextContent ''sys''))
         @ drop k [AIMessage (TextContent ''b'') [], HumanMessage (TextContent ''c'')])"
proof -
  let ?X = "[HumanMessage (TextContent ''a''), AIMessage (TextContent ''b'') [],
             HumanMessage (TextContent ''c'')]"
  let ?sys = "Some (TextContent ''sys'')"
  have h1: "list_all simple_turn ?X" by simp
  have h2: "list_all (\<lambda>m. get_message_tokens m \<le> ceiling_tokens) ?X"
    by (simp add: get_message_tokens_def chars_per_token_def ceiling_tokens_def)
  note inst = recent_simple_turns[OF h1 h2, of 2 ?sys 100000]
  have "(0::int) \<le> 2 \<and> 2 < int (length ?X) \<and> int (system_tokens ?sys + seq_tokens ?X) \<le> 100000"
    by (simp add: system_tokens_def get_message_tokens_def chars_per_token_def)
  with inst have "truncate_messages ?X ?sys 2 100000
      = system_prefix ?sys @ drop (length ?X - nat 2) ?X"
    by blast
  then have a: "truncate_messages ?X ?sys 2 100000
     = [SystemMessage (TextContent ''sys''), AIMessage (TextContent ''b'') [],
        HumanMessage (TextContent ''c'')]"
    by (simp add: system_prefix_def)
  have "?X = [] @ HumanMessage (TextContent ''a'')
            # [AIMessage (TextContent ''b'') [], HumanMessage (TextContent ''c'')]
      \<and> \<not> (int (length [AIMessage (TextContent ''b'') [], HumanMessage (TextContent ''c'')]) + 1 \<le> 2
          \<and> int (system_tokens ?sys + seq_tokens (HumanMessage (TextContent ''a'')
                # [AIMessage (TextContent ''b'') [], HumanMessage (TextContent ''c'')])) \<le> 100000)"
    by (simp add: system_tokens_def get_message_tokens_def chars_per_token_def)
  with inst have b: "\<exists>k. truncate_messages ?X ?sys 2 100000
     = system_prefix ?sys @ drop k [AIMessage (TextContent ''b'') [], HumanMessage (TextContent ''c'')]"
    by blast
  show ?thesis using h1 h2 a b by blast
qed

section \<open>Runs of tool messages in a validated list\<close>



section \<open>Order of the returned messages\<close>

text \<open>
  With no id read by grouping, every sequence is a single message, and the flat reversal
  of line 161 restores the order of the input.
\<close>

lemma subseq_rev: "subseq xs ys \<Longrightarrow> subseq (rev xs) (rev ys)"
proof (induction rule: list_emb.induct)
  case (list_emb_Nil ys)
  show ?case by simp
next
  case (list_emb_Cons xs ys y)
  then show ?case by (simp add: subseq_rev_drop_many)
next
  case (list_emb_Cons2 x y xs ys)
  then show ?case by (simp add: list_emb_append_mono)
qed

lemma select_loop_singles_subseq:
  "\<exists>zs. select_loop N T (map single ys) (acc, tot, cnt) = acc @ zs \<and> subseq zs ys
     \<and> (\<forall>m\<in>set (if acc = [] then tl zs else zs). get_message_tokens m \<le> ceiling_tokens)"
proof (induction ys arbitrary: acc tot cnt)
  case Nil
  show ?case by simp
next
  case (Cons y ys)
  let ?big = "get_message_tokens y > ceiling_tokens"
  let ?fit = "int (cnt + 1) \<le> N \<and> int (tot + get_message_tokens y) \<le> T"
  consider (skip) "?big \<and> acc \<noteq> []" | (take) "\<not> (?big \<and> acc \<noteq> [])" ?fit
    | (stop) "\<not> (?big \<and> acc \<noteq> [])" "\<not> ?fit" by blast
  then show ?case
  proof cases
    case skip
    then have "select_loop N T (map single (y # ys)) (acc, tot, cnt)
        = select_loop N T (map single ys) (acc, tot, cnt)"
      by (simp add: single_def)
    moreover obtain zs where "select_loop N T (map single ys) (acc, tot, cnt) = acc @ zs"
      "subseq zs ys"
      "\<forall>m\<in>set (if acc = [] then tl zs else zs). get_message_tokens m \<le> ceiling_tokens"
      using Cons[of acc tot cnt] by blast
    ultimately show ?thesis by (intro exI[of _ zs]) auto
  next
    case take
    then have e: "select_loop N T (map single (y # ys)) (acc, tot, cnt)
        = select_loop N T (map single ys) (acc @ [y], tot + get_message_tokens y, cnt + 1)"
      by (auto simp: single_def)
    obtain zs where z: "select_loop N T (map single ys) (acc @ [y], tot + get_message_tokens y, cnt + 1)
          = (acc @ [y]) @ zs" "subseq zs ys"
      "\<forall>m\<in>set zs. get_message_tokens m \<le> ceiling_tokens"
      using Cons[of "acc @ [y]" "tot + get_message_tokens y" "cnt + 1"] by auto
    have "\<forall>m\<in>set (if acc = [] then tl (y # zs) else y # zs). get_message_tokens m \<le> ceiling_tokens"
      using z(3) take(1) by auto
    then show ?thesis using e z by (intro exI[of _ "y # zs"]) auto
  next
    case stop
    then have "select_loop N T (map single (y # ys)) (acc, tot, cnt) = acc"
      by (auto simp: single_def)
    then show ?thesis by (intro exI[of _ "[]"]) auto
  qed
qed

lemma selected_subseq:
  assumes "list_all no_attr_ids msgs"
  shows "subseq (selected msgs sys N T) msgs
     \<and> (\<forall>m\<in>set (butlast (selected msgs sys N T)). get_message_tokens m \<le> ceiling_tokens)"
proof -
  let ?f = "filter (\<lambda>msg. \<not> is_system msg) msgs"
  have "list_all no_attr_ids ?f" using assms by (auto simp: list_all_iff)
  then have s: "selected msgs sys N T
     = rev (select_loop N T (map single (rev ?f)) ([], system_tokens sys, 0))"
    by (simp add: selected_def select_messages_def group_messages_single rev_map)
  obtain zs where z: "select_loop N T (map single (rev ?f)) ([], system_tokens sys, 0) = [] @ zs"
    "subseq zs (rev ?f)" "\<forall>m\<in>set (tl zs). get_message_tokens m \<le> ceiling_tokens"
    using select_loop_singles_subseq[of N T "rev ?f" "[]" "system_tokens sys" 0] by auto
  have "subseq (rev zs) ?f" using subseq_rev[OF z(2)] by simp
  then have "subseq (rev zs) msgs" using subseq_filter_left subseq_order.trans by blast
  moreover have "butlast (rev zs) = rev (tl zs)" by (simp add: butlast_rev)
  ultimately show ?thesis using s z by simp
qed

text \<open>
  C10. For every input that LangChain's types admit, and more generally whenever
  grouping reads no id (\<open>no_attr_ids\<close>), the returned list is the system message, if any,
  followed by a subsequence of the input: its messages are messages of the input, each
  position used at most once, in the order of the input.
\<close>

theorem output_subsequence:
  assumes "list_all no_attr_ids msgs"
  shows "\<exists>body. truncate_messages msgs sys N T = system_prefix sys @ body \<and> subseq body msgs"
proof -
  have "subseq (window msgs sys N T) msgs"
    using subseq_window_selected selected_subseq[OF assms] subseq_order.trans by blast
  then show ?thesis using truncate_messages_window by blast
qed

theorem output_subsequence_witness:
  "list_all no_attr_ids
     [HumanMessage (TextContent ''hi''), AIMessage (TextContent '''') [DictCall (Some ''t1'')],
      ToolMessage (TextContent ''first'') ''t1'', ToolMessage (TextContent ''again'') ''t1'',
      HumanMessage (TextContent ''bye'')]
   \<and> truncate_messages
     [HumanMessage (TextContent ''hi''), AIMessage (TextContent '''') [DictCall (Some ''t1'')],
      ToolMessage (TextContent ''first'') ''t1'', ToolMessage (TextContent ''again'') ''t1'',
      HumanMessage (TextContent ''bye'')]
     (Some (TextContent ''sys'')) 10 100000
    = [SystemMessage (TextContent ''sys''),
       HumanMessage (TextContent ''hi''), AIMessage (TextContent '''') [DictCall (Some ''t1'')],
       ToolMessage (TextContent ''first'') ''t1'', HumanMessage (TextContent ''bye'')]
   \<and> subseq
      [HumanMessage (TextContent ''hi''), AIMessage (TextContent '''') [DictCall (Some ''t1'')],
       ToolMessage (TextContent ''first'') ''t1'', HumanMessage (TextContent ''bye'')]
      [HumanMessage (TextContent ''hi''), AIMessage (TextContent '''') [DictCall (Some ''t1'')],
       ToolMessage (TextContent ''first'') ''t1'', ToolMessage (TextContent ''again'') ''t1'',
       HumanMessage (TextContent ''bye'')]"
proof -
  let ?X = "[HumanMessage (TextContent ''hi''), AIMessage (TextContent '''') [DictCall (Some ''t1'')],
      ToolMessage (TextContent ''first'') ''t1'', ToolMessage (TextContent ''again'') ''t1'',
      HumanMessage (TextContent ''bye'')]"
  have h: "list_all no_attr_ids ?X" by simp
  have e: "truncate_messages ?X (Some (TextContent ''sys'')) 10 100000
    = [SystemMessage (TextContent ''sys''),
       HumanMessage (TextContent ''hi''), AIMessage (TextContent '''') [DictCall (Some ''t1'')],
       ToolMessage (TextContent ''first'') ''t1'', HumanMessage (TextContent ''bye'')]"
    by (simp add: eval_simps)
  from output_subsequence[OF h, of "Some (TextContent ''sys'')" 10 100000]
  obtain body where "truncate_messages ?X (Some (TextContent ''sys'')) 10 100000
      = system_prefix (Some (TextContent ''sys'')) @ body" "subseq body ?X"
    by blast
  then have "subseq
      [HumanMessage (TextContent ''hi''), AIMessage (TextContent '''') [DictCall (Some ''t1'')],
       ToolMessage (TextContent ''first'') ''t1'', HumanMessage (TextContent ''bye'')] ?X"
    using e by (simp add: system_prefix_def)
  then show ?thesis using h e by blast
qed

section \<open>Idempotence\<close>

lemma window_budget:
  "window msgs sys N T = []
   \<or> (int (length (window msgs sys N T)) \<le> N
      \<and> int (system_tokens sys + seq_tokens (window msgs sys N T)) \<le> T)"
proof (cases "window msgs sys N T = []")
  case True
  then show ?thesis by simp
next
  case False
  let ?w = "window msgs sys N T" and ?M = "selected msgs sys N T"
  have sub: "subseq ?w ?M" by (rule subseq_window_selected)
  then have "?M \<noteq> []" using False by auto
  then have b: "int (length ?M) \<le> N" "int (system_tokens sys + seq_tokens ?M) \<le> T"
    using selected_budget[of msgs sys N T] by auto
  have "length ?w \<le> length ?M" using sub by (rule list_emb_length)
  moreover have "seq_tokens ?w \<le> seq_tokens ?M" using sub by (rule seq_tokens_subseq)
  ultimately show ?thesis using b by linarith
qed

lemma subseq_butlast: "subseq xs ys \<Longrightarrow> set (butlast xs) \<subseteq> set (butlast ys)"
proof (induction rule: list_emb.induct)
  case (list_emb_Nil ys)
  show ?case by simp
next
  case (list_emb_Cons xs ys y)
  then show ?case by (cases ys) auto
next
  case (list_emb_Cons2 x y xs ys)
  then show ?case by (cases xs; cases ys) auto
qed

lemma select_loop_all:
  assumes "ys = [] \<or> (int (cnt + length ys) \<le> N \<and> int (tot + seq_tokens ys) \<le> T)"
    and "\<forall>m\<in>set (if acc = [] then tl ys else ys). get_message_tokens m \<le> ceiling_tokens"
  shows "select_loop N T (map single ys) (acc, tot, cnt) = acc @ ys"
  using assms
proof (induction ys arbitrary: acc tot cnt)
  case Nil
  show ?case by simp
next
  case (Cons y ys)
  have ns: "\<not> (get_message_tokens y > ceiling_tokens \<and> acc \<noteq> [])"
    using Cons.prems(2) by (cases "acc = []") auto
  have fit: "int (cnt + 1) \<le> N \<and> int (tot + get_message_tokens y) \<le> T"
    using Cons.prems(1) by auto
  have e: "select_loop N T (map single (y # ys)) (acc, tot, cnt)
        = select_loop N T (map single ys) (acc @ [y], tot + get_message_tokens y, cnt + 1)"
    using ns fit by (auto simp: single_def)
  have 1: "ys = [] \<or> (int (cnt + 1 + length ys) \<le> N
       \<and> int (tot + get_message_tokens y + seq_tokens ys) \<le> T)"
    using Cons.prems(1) by (auto simp: add.assoc)
  have 2: "\<forall>m\<in>set (if acc @ [y] = [] then tl ys else ys). get_message_tokens m \<le> ceiling_tokens"
    using Cons.prems(2) by (auto split: if_splits)
  show ?case using e Cons.IH[OF 1 2] by simp
qed

lemma window_fixpoint:
  assumes "selected xs sys N T = w" "complete_blocks w"
  shows "window xs sys N T = w"
  using assms
  by (simp add: window_def Let_def validate_fixpoint final_clean_fixpoint)

text \<open>
  C7. For every input that LangChain's types admit, and more generally whenever
  grouping reads no id (\<open>no_attr_ids\<close>), applying the function to its own result, with
  the same system message and budgets, returns that result.
\<close>

theorem truncate_idempotent:
  assumes "list_all no_attr_ids msgs"
  shows "truncate_messages (truncate_messages msgs sys N T) sys N T = truncate_messages msgs sys N T"
proof -
  let ?w = "window msgs sys N T" and ?M = "selected msgs sys N T"
  let ?out = "system_prefix sys @ ?w"
  have sub: "subseq ?w ?M" by (rule subseq_window_selected)
  have subm: "subseq ?w msgs"
    using sub selected_subseq[OF assms, of sys N T] subseq_order.trans by blast
  have "set ?w \<subseteq> set ?M" using sub by (rule subseq_set)
  then have ns: "\<forall>m\<in>set ?w. \<not> is_system m" using set_selected[of msgs sys N T] by blast
  have f: "filter (\<lambda>msg. \<not> is_system msg) ?out = ?w"
    using ns by (cases sys) (auto simp: system_prefix_def filter_id_conv)
  have na: "list_all no_attr_ids ?w"
    using subseq_set[OF subm] assms by (auto simp: list_all_iff)
  have small: "\<forall>m\<in>set (tl (rev ?w)). get_message_tokens m \<le> ceiling_tokens"
  proof -
    have "set (butlast ?w) \<subseteq> set (butlast ?M)" using sub by (rule subseq_butlast)
    moreover have "tl (rev ?w) = rev (butlast ?w)" by (cases ?w rule: rev_cases) simp_all
    ultimately show ?thesis using selected_subseq[OF assms, of sys N T] by auto
  qed
  have fit: "rev ?w = [] \<or> (int (0 + length (rev ?w)) \<le> N
       \<and> int (system_tokens sys + seq_tokens (rev ?w)) \<le> T)"
    using window_budget[of msgs sys N T] by auto
  have "select_loop N T (map single (rev ?w)) ([], system_tokens sys, 0) = [] @ rev ?w"
    using fit small by (intro select_loop_all) auto
  moreover have "selected ?out sys N T
      = rev (select_loop N T (rev (group_messages ?w)) ([], system_tokens sys, 0))"
    unfolding selected_def select_messages_def f by (rule refl)
  ultimately have s: "selected ?out sys N T = ?w"
    by (simp add: group_messages_single[OF na] rev_map)
  have cb: "complete_blocks ?w" by (rule complete_blocks_window)
  have "window ?out sys N T = ?w"
    using s cb by (rule window_fixpoint)
  then show ?thesis by (simp add: truncate_messages_window)
qed

theorem truncate_idempotent_witness:
  "list_all no_attr_ids
     [HumanMessage (TextContent ''hi''), AIMessage (TextContent '''') [DictCall (Some ''t1'')],
      ToolMessage (TextContent ''first'') ''t1'', ToolMessage (TextContent ''again'') ''t1'',
      HumanMessage (TextContent ''bye'')]
   \<and> truncate_messages
     [HumanMessage (TextContent ''hi''), AIMessage (TextContent '''') [DictCall (Some ''t1'')],
      ToolMessage (TextContent ''first'') ''t1'', ToolMessage (TextContent ''again'') ''t1'',
      HumanMessage (TextContent ''bye'')]
     (Some (TextContent ''sys'')) 10 100000
    = [SystemMessage (TextContent ''sys''),
       HumanMessage (TextContent ''hi''), AIMessage (TextContent '''') [DictCall (Some ''t1'')],
       ToolMessage (TextContent ''first'') ''t1'', HumanMessage (TextContent ''bye'')]
   \<and> truncate_messages
       [SystemMessage (TextContent ''sys''),
        HumanMessage (TextContent ''hi''), AIMessage (TextContent '''') [DictCall (Some ''t1'')],
        ToolMessage (TextContent ''first'') ''t1'', HumanMessage (TextContent ''bye'')]
       (Some (TextContent ''sys'')) 10 100000
    = [SystemMessage (TextContent ''sys''),
       HumanMessage (TextContent ''hi''), AIMessage (TextContent '''') [DictCall (Some ''t1'')],
       ToolMessage (TextContent ''first'') ''t1'', HumanMessage (TextContent ''bye'')]"
proof -
  let ?X = "[HumanMessage (TextContent ''hi''), AIMessage (TextContent '''') [DictCall (Some ''t1'')],
      ToolMessage (TextContent ''first'') ''t1'', ToolMessage (TextContent ''again'') ''t1'',
      HumanMessage (TextContent ''bye'')]"
  have h: "list_all no_attr_ids ?X" by simp
  have e: "truncate_messages ?X (Some (TextContent ''sys'')) 10 100000
    = [SystemMessage (TextContent ''sys''),
       HumanMessage (TextContent ''hi''), AIMessage (TextContent '''') [DictCall (Some ''t1'')],
       ToolMessage (TextContent ''first'') ''t1'', HumanMessage (TextContent ''bye'')]"
    by (simp add: eval_simps)
  from truncate_idempotent[OF h, of "Some (TextContent ''sys'')" 10 100000]
  have "truncate_messages (truncate_messages ?X (Some (TextContent ''sys'')) 10 100000)
          (Some (TextContent ''sys'')) 10 100000
      = truncate_messages ?X (Some (TextContent ''sys'')) 10 100000" .
  then show ?thesis using h e by simp
qed

section \<open>Repeated tool results\<close>

















section \<open>Tool calls with an id attribute\<close>

text \<open>
  LangChain's types exclude a tool call that carries its id as an attribute, but the
  source reads one (\<open>ObjCall\<close>). For such calls grouping builds sequences of several
  messages, and \<open>messages_to_add.reverse()\<close> (line 161, commented "Reverse to get
  chronological order") reverses the inside of each: the two results above do not extend
  to them.
\<close>

lemma attribute_ids_reorder:
  "truncate_messages
     [AIMessage (TextContent ''1'') [ObjCall (Some ''a''), ObjCall (Some ''b'')],
      ToolMessage (TextContent ''r1'') ''a'', ToolMessage (TextContent ''r2'') ''b'',
      AIMessage (TextContent ''2'') [ObjCall (Some ''a''), ObjCall (Some ''b'')],
      ToolMessage (TextContent ''r3'') ''a'', ToolMessage (TextContent ''r4'') ''b'']
     (Some (TextContent ''sys'')) 10 100000
   = [SystemMessage (TextContent ''sys''),
      AIMessage (TextContent ''1'') [ObjCall (Some ''a''), ObjCall (Some ''b'')],
      ToolMessage (TextContent ''r4'') ''b'', ToolMessage (TextContent ''r3'') ''a'']
   \<and> \<not> subseq
      [AIMessage (TextContent ''1'') [ObjCall (Some ''a''), ObjCall (Some ''b'')],
       ToolMessage (TextContent ''r4'') ''b'', ToolMessage (TextContent ''r3'') ''a'']
      [AIMessage (TextContent ''1'') [ObjCall (Some ''a''), ObjCall (Some ''b'')],
       ToolMessage (TextContent ''r1'') ''a'', ToolMessage (TextContent ''r2'') ''b'',
       AIMessage (TextContent ''2'') [ObjCall (Some ''a''), ObjCall (Some ''b'')],
       ToolMessage (TextContent ''r3'') ''a'', ToolMessage (TextContent ''r4'') ''b'']"
  by (auto simp: eval_simps)

lemma attribute_ids_second_call:
  "truncate_messages
     [AIMessage (TextContent '''') [ObjCall (Some ''t1'')],
      ToolMessage (TextContent ''first'') ''t1'', ToolMessage (TextContent ''again'') ''t1'']
     (Some (TextContent ''sys'')) 10 100000
   = [SystemMessage (TextContent ''sys''), AIMessage (TextContent '''') [ObjCall (Some ''t1'')],
      ToolMessage (TextContent ''again'') ''t1'']
   \<and> truncate_messages
       [SystemMessage (TextContent ''sys''), AIMessage (TextContent '''') [ObjCall (Some ''t1'')],
        ToolMessage (TextContent ''again'') ''t1'']
       (Some (TextContent ''sys'')) 10 100000
   = [SystemMessage (TextContent ''sys'')]"
  by (simp add: eval_simps)

section \<open>The call in a store of list objects\<close>

text \<open>
  Python lists are objects: \<open>append\<close>, \<open>extend\<close> and \<open>reverse\<close> change the list they are
  called on, and a second name for a list sees the change. To say that the call leaves
  its argument alone, the list objects get identities. A store maps the identity of each
  list object to its contents; \<open>next_id\<close> is the first identity not yet given out.
  Messages stay values: the function assigns to no attribute of a message.
\<close>

record store =
  objects :: "nat \<Rightarrow> message list option"
  next_id :: nat

text \<open>
  \<open>new_list\<close> is a list display, a comprehension, a slice or \<open>+\<close>: a new object.
  \<open>set_list\<close> is a method that changes the object in place. \<open>get_list\<close> reads one.
\<close>

definition new_list :: "message list \<Rightarrow> store \<Rightarrow> nat \<times> store" where
  "new_list xs s =
     (next_id s, s\<lparr>objects := (objects s)(next_id s \<mapsto> xs), next_id := Suc (next_id s)\<rparr>)"

definition set_list :: "nat \<Rightarrow> message list \<Rightarrow> store \<Rightarrow> store" where
  "set_list a xs s = s\<lparr>objects := (objects s)(a \<mapsto> xs)\<rparr>"

definition get_list :: "store \<Rightarrow> nat \<Rightarrow> message list" where
  "get_list s a = (case objects s a of Some xs \<Rightarrow> xs | None \<Rightarrow> [])"

fun new_lists :: "message list list \<Rightarrow> store \<Rightarrow> nat list \<times> store" where
  "new_lists [] s = ([], s)"
| "new_lists (xs # xss) s =
     (case new_list xs s of (a, s1) \<Rightarrow>
        (case new_lists xss s1 of (as, s2) \<Rightarrow> (a # as, s2)))"

definition store_ok :: "store \<Rightarrow> bool" where
  "store_ok s = (\<forall>b. next_id s \<le> b \<longrightarrow> objects s b = None)"

text \<open>
  The function, stage by stage, with every list it creates and every list it changes.
  A loop that only appends to one list is given by what it leaves in that list, computed
  by the function that models the loop. Lines 45-53: \<open>result\<close> and \<open>filtered_messages\<close>.
\<close>

definition start_in_store :: "nat \<Rightarrow> content option \<Rightarrow> store \<Rightarrow> nat \<times> nat \<times> store" where
  "start_in_store messages_id system_message s0 =
     (let (result, s1) = new_list [] s0;
          s2 = (case system_message of
                  Some c \<Rightarrow> set_list result (get_list s1 result @ [SystemMessage c]) s1
                | None \<Rightarrow> s1);
          (filtered_messages, s3) =
             new_list (filter (\<lambda>msg. \<not> is_system msg) (get_list s2 messages_id)) s2
      in (result, filtered_messages, s3))"

text \<open>
  Lines 60-161: the list objects of the sequences, then \<open>messages_to_add\<close>, extended in
  the loop and reversed in place.
\<close>

definition select_in_store :: "int \<Rightarrow> int \<Rightarrow> nat \<Rightarrow> nat \<Rightarrow> store \<Rightarrow> nat \<times> store" where
  "select_in_store max_messages max_tokens_approx tokens_so_far filtered_messages s3 =
     (let sequences = group_messages (get_list s3 filtered_messages);
          (sequence_ids, s4) = new_lists (map fst sequences) s3;
          (messages_to_add, s5) = new_list [] s4;
          s6 = set_list messages_to_add
                 (select_loop max_messages max_tokens_approx (rev sequences)
                    (get_list s5 messages_to_add, tokens_so_far, 0)) s5;
          s7 = set_list messages_to_add (rev (get_list s6 messages_to_add)) s6
      in (messages_to_add, s7))"

text \<open>
  Lines 172-298: \<open>validated_messages\<close>, and \<open>result.extend(validated_messages)\<close>.
\<close>

definition validate_in_store :: "nat \<Rightarrow> nat \<Rightarrow> store \<Rightarrow> store" where
  "validate_in_store result messages_to_add s7 =
     (let (validated_messages, s8) = new_list [] s7;
          s9 = set_list validated_messages
                 (validate (tool_message_ids (get_list s8 messages_to_add))
                    (get_list s8 validated_messages) (get_list s8 messages_to_add)) s8
      in set_list result (get_list s9 result @ get_list s9 validated_messages) s9)"

text \<open>
  Lines 302-440: \<open>final_cleaned_messages\<close>; \<open>messages_to_process\<close> is \<open>result\<close> itself or
  the new list \<open>result[1:]\<close>; the value returned is a new list built with \<open>+\<close>, or
  \<open>final_cleaned_messages\<close> itself.
\<close>

definition clean_in_store :: "content option \<Rightarrow> nat \<Rightarrow> store \<Rightarrow> nat \<times> store" where
  "clean_in_store system_message result s10 =
     (let (final_cleaned_messages, s11) = new_list [] s10;
          system_msg_in_result =
            (case get_list s11 result of [] \<Rightarrow> None
             | m # ms \<Rightarrow> if is_system m then Some m else None);
          (messages_to_process, s12) =
            (case get_list s11 result of [] \<Rightarrow> (result, s11)
             | m # ms \<Rightarrow> if is_system m then new_list ms s11 else (result, s11));
          s13 = set_list final_cleaned_messages
                  (final_clean (tool_message_ids (get_list s12 messages_to_process))
                     (get_list s12 final_cleaned_messages)
                     (get_list s12 messages_to_process)) s12
      in case system_msg_in_result of
           Some m \<Rightarrow>
             (case new_list [m] s13 of (single_id, s14) \<Rightarrow>
                new_list (get_list s14 single_id @ get_list s14 final_cleaned_messages) s14)
         | None \<Rightarrow>
             (case system_message of
                Some c \<Rightarrow>
                  (case new_list [SystemMessage c] s13 of (single_id, s14) \<Rightarrow>
                     new_list (get_list s14 single_id @ get_list s14 final_cleaned_messages) s14)
              | None \<Rightarrow> (final_cleaned_messages, s13)))"

text \<open>
  The whole call, on the identity of the \<open>messages\<close> argument. Line 56 returns the
  object \<open>result\<close>.
\<close>

definition truncate_messages_in_store ::
  "nat \<Rightarrow> content option \<Rightarrow> int \<Rightarrow> int \<Rightarrow> store \<Rightarrow> (nat \<times> store) option" where
  "truncate_messages_in_store messages_id system_message max_messages max_tokens_approx s0 =
     (case objects s0 messages_id of
        None \<Rightarrow> None
      | Some messages \<Rightarrow>
          (let (result, filtered_messages, s3) = start_in_store messages_id system_message s0;
               tokens_so_far =
                 (case system_message of
                    Some c \<Rightarrow> get_message_tokens (SystemMessage c) | None \<Rightarrow> 0)
           in if get_list s3 filtered_messages = [] then Some (result, s3)
              else
                (let (messages_to_add, s7) =
                       select_in_store max_messages max_tokens_approx tokens_so_far
                         filtered_messages s3;
                     s10 = validate_in_store result messages_to_add s7
                 in Some (clean_in_store system_message result s10))))"

lemma new_lists_frame:
  "new_lists xss s = (ids, s') \<Longrightarrow>
     next_id s' = next_id s + length xss
     \<and> (\<forall>b. b < next_id s \<longrightarrow> objects s' b = objects s b)"
proof (induction xss arbitrary: s ids s')
  case Nil
  then show ?case by simp
next
  case (Cons xs xss)
  obtain a s1 where 1: "new_list xs s = (a, s1)" by (cases "new_list xs s")
  obtain as s2 where 2: "new_lists xss s1 = (as, s2)" by (cases "new_lists xss s1")
  have 3: "s' = s2" using Cons.prems 1 2 by simp
  have 4: "next_id s1 = Suc (next_id s)" "\<forall>b. b \<noteq> next_id s \<longrightarrow> objects s1 b = objects s b"
    using 1 by (auto simp: new_list_def)
  show ?case using Cons.IH[OF 2] 3 4 by auto
qed

lemma new_list_fst [simp]: "fst (new_list xs st) = next_id st"
  by (simp add: new_list_def)

lemma new_list_next [simp]: "next_id (snd (new_list xs st)) = Suc (next_id st)"
  by (simp add: new_list_def)

lemma new_list_objects [simp]:
  "objects (snd (new_list xs st)) = (objects st)(next_id st \<mapsto> xs)"
  by (simp add: new_list_def)

lemma set_list_next [simp]: "next_id (set_list a xs st) = next_id st"
  by (simp add: set_list_def)

lemma set_list_objects [simp]: "objects (set_list a xs st) = (objects st)(a \<mapsto> xs)"
  by (simp add: set_list_def)

lemma new_lists_next [simp]: "next_id (snd (new_lists xss st)) = next_id st + length xss"
  using new_lists_frame[of xss st "fst (new_lists xss st)" "snd (new_lists xss st)"] by simp

lemma new_lists_objects [simp]:
  "b < next_id st \<Longrightarrow> objects (snd (new_lists xss st)) b = objects st b"
  using new_lists_frame[of xss st "fst (new_lists xss st)" "snd (new_lists xss st)"] by simp

lemma start_in_store_result:
  assumes "objects s messages_id = Some messages" "messages_id < next_id s"
  shows "fst (start_in_store messages_id sys s) = next_id s
   \<and> fst (snd (start_in_store messages_id sys s)) = Suc (next_id s)
   \<and> next_id (snd (snd (start_in_store messages_id sys s))) = Suc (Suc (next_id s))
   \<and> objects (snd (snd (start_in_store messages_id sys s)))
      = (objects s)(next_id s \<mapsto> system_prefix sys,
                    Suc (next_id s) \<mapsto> filter (\<lambda>msg. \<not> is_system msg) messages)"
  using assms
  by (cases sys)
     (simp_all add: start_in_store_def Let_def split_beta get_list_def system_prefix_def)

lemma select_in_store_result:
  assumes "objects s3 f = Some F" "f < next_id s3"
  shows "fst (select_in_store N T st f s3) = next_id s3 + length (group_messages F)
   \<and> next_id (snd (select_in_store N T st f s3)) = Suc (next_id s3 + length (group_messages F))
   \<and> objects (snd (select_in_store N T st f s3)) (next_id s3 + length (group_messages F))
       = Some (select_messages N T st (group_messages F))
   \<and> (\<forall>b<next_id s3. objects (snd (select_in_store N T st f s3)) b = objects s3 b)"
  using assms
  by (simp add: select_in_store_def Let_def split_beta get_list_def select_messages_def)

lemma validate_in_store_result:
  assumes "objects s7 mta = Some M" "objects s7 result = Some R"
    "mta < next_id s7" "result < next_id s7" "mta \<noteq> result"
  shows "next_id (validate_in_store result mta s7) = Suc (next_id s7)
   \<and> objects (validate_in_store result mta s7)
      = (objects s7)(next_id s7 \<mapsto> validate (tool_message_ids M) [] M,
                     result \<mapsto> R @ validate (tool_message_ids M) [] M)"
  using assms
  by (simp add: validate_in_store_def Let_def split_beta get_list_def)

lemma clean_in_store_result:
  assumes "objects s10 result = Some (system_prefix sys @ V)" "result < next_id s10"
    "\<forall>m\<in>set V. \<not> is_system m"
  shows "next_id s10 \<le> fst (clean_in_store sys result s10)
   \<and> objects (snd (clean_in_store sys result s10)) (fst (clean_in_store sys result s10))
      = Some (system_prefix sys @ final_clean (tool_message_ids V) [] V)
   \<and> (\<forall>b<next_id s10. objects (snd (clean_in_store sys result s10)) b = objects s10 b)"
proof (cases sys)
  case (Some c)
  then show ?thesis using assms(1,2)
    by (simp add: clean_in_store_def Let_def split_beta get_list_def system_prefix_def)
next
  case None
  have "V = [] \<or> (\<exists>m ms. V = m # ms \<and> \<not> is_system m)" using assms(3) by (cases V) auto
  then show ?thesis using assms(1,2) None
    by (auto simp: clean_in_store_def Let_def split_beta get_list_def system_prefix_def)
qed

lemma store_ok_below:
  "store_ok s \<Longrightarrow> objects s a = Some xs \<Longrightarrow> a < next_id s"
  by (auto simp: store_ok_def not_le[symmetric])

lemma in_store_result:
  assumes "objects s messages_id = Some messages" and "store_ok s"
  shows "\<exists>r s'. truncate_messages_in_store messages_id sys N T s = Some (r, s')
     \<and> next_id s \<le> r
     \<and> objects s' r = Some (truncate_messages messages sys N T)
     \<and> (\<forall>b<next_id s. objects s' b = objects s b)"
proof -
  let ?n = "next_id s"
  let ?F = "filter (\<lambda>msg. \<not> is_system msg) messages"
  let ?st = "case sys of Some c \<Rightarrow> get_message_tokens (SystemMessage c) | None \<Rightarrow> 0"
  have lt: "messages_id < ?n" using assms(2,1) by (rule store_ok_below)
  define s3 where "s3 = snd (snd (start_in_store messages_id sys s))"
  have start: "start_in_store messages_id sys s = (?n, Suc ?n, s3)"
    and n3: "next_id s3 = Suc (Suc ?n)"
    and o3: "objects s3 = (objects s)(?n \<mapsto> system_prefix sys, Suc ?n \<mapsto> ?F)"
    using start_in_store_result[OF assms(1) lt, of sys] by (simp_all add: s3_def prod_eq_iff)
  have g3: "get_list s3 (Suc ?n) = ?F" by (simp add: get_list_def o3)
  show ?thesis
  proof (cases "?F = []")
    case True
    have "truncate_messages_in_store messages_id sys N T s = Some (?n, s3)"
      using assms(1) True by (simp add: truncate_messages_in_store_def start g3)
    moreover have "objects s3 ?n = Some (truncate_messages messages sys N T)"
      using True
      by (simp add: o3 truncate_messages_window window_def selected_Nil pass_simps)
    moreover have "\<forall>b<?n. objects s3 b = objects s b" by (simp add: o3)
    ultimately show ?thesis by blast
  next
    case False
    let ?M = "selected messages sys N T"
    let ?V = "validate (tool_message_ids ?M) [] ?M"
    let ?p = "Suc (Suc ?n) + length (group_messages ?F)"
    define s7 where "s7 = snd (select_in_store N T ?st (Suc ?n) s3)"
    have f3: "objects s3 (Suc ?n) = Some ?F" by (simp add: o3)
    note sel = select_in_store_result[OF f3, of N T ?st, unfolded n3]
    have sel1: "select_in_store N T ?st (Suc ?n) s3 = (?p, s7)"
      and n7: "next_id s7 = Suc ?p"
      and m7: "objects s7 ?p = Some ?M"
      and fr7: "\<forall>b<Suc (Suc ?n). objects s7 b = objects s3 b"
      using sel
      by (simp_all add: s7_def prod_eq_iff selected_def system_tokens_def)
    have r7: "objects s7 ?n = Some (system_prefix sys)" using fr7 by (simp add: o3)
    define s10 where "s10 = validate_in_store ?n ?p s7"
    have n10: "next_id s10 = Suc (Suc ?p)"
      and o10: "objects s10 = (objects s7)(Suc ?p \<mapsto> ?V, ?n \<mapsto> system_prefix sys @ ?V)"
      using validate_in_store_result[OF m7 r7, unfolded n7] by (simp_all add: s10_def n7)
    have r10: "objects s10 ?n = Some (system_prefix sys @ ?V)" by (simp add: o10)
    have "set ?V \<subseteq> set ?M" using subseq_validate by (rule subseq_set)
    then have ns: "\<forall>m \<in> set ?V. \<not> is_system m" using set_selected[of messages sys N T] by blast
    have lt10: "?n < next_id s10" by (simp add: n10)
    note cl = clean_in_store_result[OF r10 lt10 ns]
    obtain r s' where rs: "clean_in_store sys ?n s10 = (r, s')"
      by (cases "clean_in_store sys ?n s10")
    have c1: "next_id s10 \<le> r"
      and c2: "objects s' r = Some (system_prefix sys @ final_clean (tool_message_ids ?V) [] ?V)"
      and c3: "\<forall>b<next_id s10. objects s' b = objects s10 b"
      using cl rs by simp_all
    have "truncate_messages_in_store messages_id sys N T s = Some (r, s')"
      using assms(1) False rs[unfolded s10_def]
      by (simp add: truncate_messages_in_store_def start g3 sel1)
    moreover have "?n \<le> r" using c1 n10 by simp
    moreover have "objects s' r = Some (truncate_messages messages sys N T)"
      using c2 by (simp add: truncate_messages_window window_def Let_def)
    moreover have "\<forall>b<?n. objects s' b = objects s b"
    proof (intro allI impI)
      fix b assume b: "b < ?n"
      then have "objects s' b = objects s10 b" using c3 n10 by simp
      also have "\<dots> = objects s7 b" using b by (simp add: o10)
      also have "\<dots> = objects s3 b" using b fr7 by simp
      also have "\<dots> = objects s b" using b by (simp add: o3)
      finally show "objects s' b = objects s b" .
    qed
    ultimately show ?thesis by blast
  qed
qed

text \<open>
  C9. In every store, whatever list the argument \<open>messages\<close> is: after the call that
  list object holds the same messages in the same order, the returned list is an object
  that did not exist before the call, hence not the argument, and no list object that
  existed before the call has changed. The returned object holds the value of
  \<open>truncate_messages\<close>.
\<close>

theorem input_list_untouched:
  assumes "objects s messages_id = Some messages" and "store_ok s"
  shows "\<exists>r s'. truncate_messages_in_store messages_id sys N T s = Some (r, s')
     \<and> objects s' messages_id = Some messages
     \<and> r \<noteq> messages_id \<and> objects s r = None
     \<and> objects s' r = Some (truncate_messages messages sys N T)
     \<and> (\<forall>b. objects s b \<noteq> None \<longrightarrow> objects s' b = objects s b)"
proof -
  obtain r s' where e: "truncate_messages_in_store messages_id sys N T s = Some (r, s')"
    and 1: "next_id s \<le> r" "objects s' r = Some (truncate_messages messages sys N T)"
    "\<forall>b<next_id s. objects s' b = objects s b"
    using in_store_result[OF assms, of sys N T] by blast
  have lt: "messages_id < next_id s" using assms(2,1) by (rule store_ok_below)
  have 2: "objects s r = None" using assms(2) 1(1) by (simp add: store_ok_def)
  have 3: "\<forall>b. objects s b \<noteq> None \<longrightarrow> objects s' b = objects s b"
    using 1(3) store_ok_below[OF assms(2)] by auto
  show ?thesis using e 1 2 3 lt assms(1) by auto
qed

theorem input_list_untouched_witness:
  "objects \<lparr>objects = [0 \<mapsto> [SystemMessage (TextContent ''old''), HumanMessage (TextContent ''hi'')]],
            next_id = 1\<rparr> 0
      = Some [SystemMessage (TextContent ''old''), HumanMessage (TextContent ''hi'')]
   \<and> store_ok \<lparr>objects = [0 \<mapsto> [SystemMessage (TextContent ''old''), HumanMessage (TextContent ''hi'')]],
                next_id = 1\<rparr>
   \<and> (\<exists>r s'. truncate_messages_in_store 0 (Some (TextContent ''sys'')) 10 1000
          \<lparr>objects = [0 \<mapsto> [SystemMessage (TextContent ''old''), HumanMessage (TextContent ''hi'')]],
            next_id = 1\<rparr> = Some (r, s')
        \<and> objects s' 0 = Some [SystemMessage (TextContent ''old''), HumanMessage (TextContent ''hi'')]
        \<and> r \<noteq> 0
        \<and> objects s' r = Some [SystemMessage (TextContent ''sys''), HumanMessage (TextContent ''hi'')])"
proof -
  let ?X = "[SystemMessage (TextContent ''old''), HumanMessage (TextContent ''hi'')]"
  let ?S = "\<lparr>objects = [0 \<mapsto> ?X], next_id = 1\<rparr>"
  have h1: "objects ?S 0 = Some ?X" by simp
  have h2: "store_ok ?S" by (simp add: store_ok_def)
  have e: "truncate_messages ?X (Some (TextContent ''sys'')) 10 1000
       = [SystemMessage (TextContent ''sys''), HumanMessage (TextContent ''hi'')]"
    by (simp add: eval_simps)
  from input_list_untouched[OF h1 h2, of "Some (TextContent ''sys'')" 10 1000]
  obtain r s' where "truncate_messages_in_store 0 (Some (TextContent ''sys'')) 10 1000 ?S = Some (r, s')"
    "objects s' 0 = Some ?X" "r \<noteq> 0"
    "objects s' r = Some (truncate_messages ?X (Some (TextContent ''sys'')) 10 1000)"
    by blast
  then show ?thesis using h1 h2 e by auto
qed

end
